theory Spec2Isabelle
  imports Main "HOL-Library.Word" "HOL-Library.Stream" "HOL-Library.Char_ord"
begin

unbundle bit_operations_syntax

section \<open>Configuration (BRAILLE\_CONFIG.h)\<close>

text \<open>
  \<^verbatim>\<open>uint8_t\<close> values that are bit patterns are \<open>8 word\<close>; \<^verbatim>\<open>unsigned long\<close>
  timestamps are \<open>32 word\<close> (the width of \<^verbatim>\<open>unsigned long\<close> on Arduino targets), so
  \<^verbatim>\<open>millis() + ACTUATOR_SETTLE_TIME\<close> wraps as in the firmware. \<^verbatim>\<open>uint8_t\<close> values
  that are array indices are \<open>nat\<close>, with \<open>mod 256\<close> written where the source truncates
  an \<^verbatim>\<open>int\<close> expression to \<^verbatim>\<open>uint8_t\<close>.
\<close>

type_synonym uint8_t = "8 word"
type_synonym ulong = "32 word"

definition NUM_BRAILLE_CELLS :: nat where [simp]: "NUM_BRAILLE_CELLS = 10"
definition DOTS_PER_CELL :: nat where [simp]: "DOTS_PER_CELL = 6"
definition TOTAL_DOTS :: nat where [simp]: "TOTAL_DOTS = NUM_BRAILLE_CELLS * DOTS_PER_CELL"
definition OUTPUTS_PER_DOT :: nat where [simp]: "OUTPUTS_PER_DOT = 2"
definition TOTAL_OUTPUTS :: nat where [simp]: "TOTAL_OUTPUTS = TOTAL_DOTS * OUTPUTS_PER_DOT"
definition NUM_SHIFT_REGISTERS :: nat where
  [simp]: "NUM_SHIFT_REGISTERS = (TOTAL_OUTPUTS + 7) div 8"
definition DOT_DIRECTION_UP :: nat where [simp]: "DOT_DIRECTION_UP = 0"
definition DOT_DIRECTION_DOWN :: nat where [simp]: "DOT_DIRECTION_DOWN = 1"
definition ACTUATOR_SETTLE_TIME :: ulong where [simp]: "ACTUATOR_SETTLE_TIME = 50"
definition BRAILLE_CAPITAL_SIGN :: uint8_t where [simp]: "BRAILLE_CAPITAL_SIGN = 0x20"
definition BRAILLE_NUMBER_SIGN :: uint8_t where [simp]: "BRAILLE_NUMBER_SIGN = 0x3C"
definition BRAILLE_SPACE :: uint8_t where [simp]: "BRAILLE_SPACE = 0x00"

definition BRAILLE_ALPHABET :: "uint8_t list" where
  "BRAILLE_ALPHABET =
     [0x01, 0x03, 0x09, 0x19, 0x11, 0x0B, 0x1B, 0x13, 0x0A, 0x1A,
      0x05, 0x07, 0x0D, 0x1D, 0x15, 0x0F, 0x1F, 0x17, 0x0E, 0x1E,
      0x25, 0x27, 0x3A, 0x2D, 0x3D, 0x35]"

definition BRAILLE_NUMBERS :: "uint8_t list" where
  "BRAILLE_NUMBERS = [0x1A, 0x01, 0x03, 0x09, 0x19, 0x11, 0x0B, 0x1B, 0x13, 0x0A]"

definition BRAILLE_PUNCTUATION :: "uint8_t list" where
  "BRAILLE_PUNCTUATION =
     [0x00, 0x16, 0x04, 0x30, 0x32, 0x0C, 0x26, 0x06, 0x12, 0x23,
      0x1C, 0x2C, 0x18, 0x2E, 0x2A, 0x24]"

section \<open>Utility functions\<close>

text \<open>\<^verbatim>\<open>mirrorBraillePattern\<close>: six tests on the argument, each or-ing one bit into
  the accumulator \<^verbatim>\<open>mirrored\<close>.\<close>

definition mirrorBraillePattern :: "uint8_t \<Rightarrow> uint8_t" where
  "mirrorBraillePattern pattern =
     (let mirrored = 0;
          mirrored = (if pattern AND 0x01 \<noteq> 0 then mirrored OR 0x08 else mirrored);
          mirrored = (if pattern AND 0x02 \<noteq> 0 then mirrored OR 0x10 else mirrored);
          mirrored = (if pattern AND 0x04 \<noteq> 0 then mirrored OR 0x20 else mirrored);
          mirrored = (if pattern AND 0x08 \<noteq> 0 then mirrored OR 0x01 else mirrored);
          mirrored = (if pattern AND 0x10 \<noteq> 0 then mirrored OR 0x02 else mirrored);
          mirrored = (if pattern AND 0x20 \<noteq> 0 then mirrored OR 0x04 else mirrored)
      in mirrored)"

definition isValidBrailleCell :: "nat \<Rightarrow> bool" where
  "isValidBrailleCell cellIndex \<longleftrightarrow> cellIndex < NUM_BRAILLE_CELLS"

section \<open>Data model\<close>

record BrailleCell =
  pattern :: uint8_t
  currentState :: uint8_t
  isActive :: bool
  updateTime :: ulong
  needsUpdate :: bool

record DotState =
  targetState :: bool
  currentState :: bool
  actionTime :: ulong
  actionPending :: bool

text \<open>
  The members of \<^verbatim>\<open>class BrailleDisplay\<close>, together with the two pieces of the
  environment the member functions touch: \<open>clock\<close>, the values that successive calls of
  \<^verbatim>\<open>millis()\<close> return (any sequence: time may pass between any two reads, and
  \<^verbatim>\<open>delay\<close> is just time passing), and \<open>shiftedOut\<close>, the bytes of the last frame
  \<^verbatim>\<open>refresh()\<close> shifted out, in the order sent. Pin modes, pin levels and the serial
  console are written but never read by the class and are left out.
\<close>

record BrailleDisplay =
  cells :: "BrailleCell list"
  dotStates :: "DotState list"
  shiftRegisterData :: "uint8_t list"
  displayEnabled :: bool
  lastUpdateTime :: ulong
  clock :: "ulong stream"
  shiftedOut :: "uint8_t list"

definition millis :: "BrailleDisplay \<Rightarrow> ulong \<times> BrailleDisplay" where
  "millis s = (shd (clock s), s\<lparr>clock := stl (clock s)\<rparr>)"

text \<open>Assignments to the fields of \<^verbatim>\<open>cells[i]\<close> and \<^verbatim>\<open>dotStates[i]\<close>.\<close>

definition setCell :: "nat \<Rightarrow> (BrailleCell \<Rightarrow> BrailleCell) \<Rightarrow> BrailleDisplay \<Rightarrow> BrailleDisplay" where
  "setCell i f s = s\<lparr>cells := (cells s)[i := f (cells s ! i)]\<rparr>"

definition setDot :: "nat \<Rightarrow> (DotState \<Rightarrow> DotState) \<Rightarrow> BrailleDisplay \<Rightarrow> BrailleDisplay" where
  "setDot i f s = s\<lparr>dotStates := (dotStates s)[i := f (dotStates s ! i)]\<rparr>"

section \<open>Output serializer\<close>

definition clearShiftRegisters :: "BrailleDisplay \<Rightarrow> BrailleDisplay" where
  "clearShiftRegisters s =
     fold (\<lambda>i s. s\<lparr>shiftRegisterData := (shiftRegisterData s)[i := 0]\<rparr>)
       [0..<NUM_SHIFT_REGISTERS] s"

definition setShiftRegisterBit :: "nat \<Rightarrow> bool \<Rightarrow> BrailleDisplay \<Rightarrow> BrailleDisplay" where
  "setShiftRegisterBit outputIndex state s =
     (if outputIndex \<ge> TOTAL_OUTPUTS then s
      else
        let registerIndex = outputIndex div 8;
            bitIndex = outputIndex mod 8
        in if registerIndex < NUM_SHIFT_REGISTERS then
             (if state then
                s\<lparr>shiftRegisterData := (shiftRegisterData s)
                    [registerIndex := shiftRegisterData s ! registerIndex OR push_bit bitIndex 1]\<rparr>
              else
                s\<lparr>shiftRegisterData := (shiftRegisterData s)
                    [registerIndex := shiftRegisterData s ! registerIndex AND NOT (push_bit bitIndex 1)]\<rparr>)
           else s)"

definition getDotOutputIndex :: "nat \<Rightarrow> nat \<Rightarrow> nat" where
  "getDotOutputIndex dotIndex direction = (dotIndex * OUTPUTS_PER_DOT + direction) mod 256"

text \<open>The body of the loop of \<^verbatim>\<open>updateShiftRegisters\<close>, for one \<^verbatim>\<open>dotIndex\<close>.\<close>

definition updateShiftRegisters_body :: "nat \<Rightarrow> BrailleDisplay \<Rightarrow> BrailleDisplay" where
  "updateShiftRegisters_body dotIndex s =
     (let dotState = DotState.currentState (dotStates s ! dotIndex);
          upOutputIndex = getDotOutputIndex dotIndex DOT_DIRECTION_UP;
          downOutputIndex = getDotOutputIndex dotIndex DOT_DIRECTION_DOWN
      in if dotState then
           setShiftRegisterBit downOutputIndex False (setShiftRegisterBit upOutputIndex True s)
         else
           setShiftRegisterBit downOutputIndex True (setShiftRegisterBit upOutputIndex False s))"

definition updateShiftRegisters :: "BrailleDisplay \<Rightarrow> BrailleDisplay" where
  "updateShiftRegisters s =
     fold updateShiftRegisters_body [0..<TOTAL_DOTS] (clearShiftRegisters s)"

definition refresh :: "BrailleDisplay \<Rightarrow> BrailleDisplay" where
  "refresh s =
     (if \<not> displayEnabled s then s
      else
        let s = s\<lparr>shiftedOut := map (\<lambda>i. shiftRegisterData s ! i) (rev [0..<NUM_SHIFT_REGISTERS])\<rparr>;
            (now, s) = millis s
        in s\<lparr>lastUpdateTime := now\<rparr>)"

section \<open>Actuator scheduler\<close>

definition setDotState :: "nat \<Rightarrow> bool \<Rightarrow> bool \<Rightarrow> BrailleDisplay \<Rightarrow> BrailleDisplay" where
  "setDotState dotIndex state immediate s =
     (if dotIndex \<ge> TOTAL_DOTS then s
      else
        let s = setDot dotIndex (\<lambda>d. d\<lparr>targetState := state\<rparr>) s
        in if immediate then
             let s = setDot dotIndex (\<lambda>d. d\<lparr>DotState.currentState := state\<rparr>) s;
                 (now, s) = millis s;
                 s = setDot dotIndex (\<lambda>d. d\<lparr>actionTime := now\<rparr>) s;
                 s = setDot dotIndex (\<lambda>d. d\<lparr>actionPending := False\<rparr>) s
             in refresh (updateShiftRegisters s)
           else
             let (now, s) = millis s;
                 s = setDot dotIndex (\<lambda>d. d\<lparr>actionTime := now + ACTUATOR_SETTLE_TIME\<rparr>) s
             in setDot dotIndex (\<lambda>d. d\<lparr>actionPending := True\<rparr>) s)"

text \<open>The body of the loop of \<^verbatim>\<open>processPendingActions\<close>, for one dot \<open>i\<close>, on the
  display and the flag \<^verbatim>\<open>updateNeeded\<close>.\<close>

definition processPendingActions_body ::
  "ulong \<Rightarrow> nat \<Rightarrow> BrailleDisplay \<times> bool \<Rightarrow> BrailleDisplay \<times> bool" where
  "processPendingActions_body currentTime i = (\<lambda>(s, updateNeeded).
     if actionPending (dotStates s ! i) \<and> currentTime \<ge> actionTime (dotStates s ! i) then
       (setDot i (\<lambda>d. d\<lparr>actionPending := False\<rparr>)
          (setDot i (\<lambda>d. d\<lparr>DotState.currentState := targetState d\<rparr>) s), True)
     else (s, updateNeeded))"

definition processPendingActions :: "BrailleDisplay \<Rightarrow> BrailleDisplay" where
  "processPendingActions s =
     (let (currentTime, s) = millis s;
          (s, updateNeeded) =
             fold (processPendingActions_body currentTime) [0..<TOTAL_DOTS] (s, False)
      in if updateNeeded then
           (let s = updateShiftRegisters s
            in if displayEnabled s then refresh s else s)
         else s)"

definition update :: "BrailleDisplay \<Rightarrow> BrailleDisplay" where
  "update s = processPendingActions s"

section \<open>Display controller\<close>

definition BrailleDisplay_new :: "ulong stream \<Rightarrow> BrailleDisplay" where
  "BrailleDisplay_new clk =
     clearShiftRegisters
       \<lparr>cells = replicate NUM_BRAILLE_CELLS
          \<lparr>pattern = 0, currentState = 0, isActive = False, updateTime = 0, needsUpdate = False\<rparr>,
        dotStates = replicate TOTAL_DOTS
          \<lparr>targetState = False, currentState = False, actionTime = 0, actionPending = False\<rparr>,
        shiftRegisterData = replicate NUM_SHIFT_REGISTERS 0,
        displayEnabled = False,
        lastUpdateTime = 0,
        clock = clk,
        shiftedOut = []\<rparr>"

definition enable :: "BrailleDisplay \<Rightarrow> BrailleDisplay" where
  "enable s = refresh (s\<lparr>displayEnabled := True\<rparr>)"

definition disable :: "BrailleDisplay \<Rightarrow> BrailleDisplay" where
  "disable s = s\<lparr>displayEnabled := False\<rparr>"

definition clearDisplay :: "BrailleDisplay \<Rightarrow> BrailleDisplay" where
  "clearDisplay s =
     (let s = fold (\<lambda>i s.
                 let s = setCell i (\<lambda>c. c\<lparr>pattern := 0\<rparr>) s;
                     s = setCell i (\<lambda>c. c\<lparr>BrailleCell.currentState := 0\<rparr>) s;
                     s = setCell i (\<lambda>c. c\<lparr>isActive := False\<rparr>) s;
                     (now, s) = millis s;
                     s = setCell i (\<lambda>c. c\<lparr>updateTime := now\<rparr>) s
                 in setCell i (\<lambda>c. c\<lparr>needsUpdate := True\<rparr>) s)
               [0..<NUM_BRAILLE_CELLS] s;
          s = fold (\<lambda>i s. setDotState i False False s) [0..<TOTAL_DOTS] s;
          s = clearShiftRegisters s
      in if displayEnabled s then refresh s else s)"

definition begin_display :: "BrailleDisplay \<Rightarrow> BrailleDisplay" where
  "begin_display s = clearDisplay s"

definition setCellPattern :: "nat \<Rightarrow> uint8_t \<Rightarrow> BrailleDisplay \<Rightarrow> BrailleDisplay" where
  "setCellPattern cellIndex pattern' s =
     (if \<not> isValidBrailleCell cellIndex then s
      else
        let s = setCell cellIndex (\<lambda>c. c\<lparr>pattern := pattern' AND 0x3F\<rparr>) s;
            s = setCell cellIndex (\<lambda>c. c\<lparr>isActive := (pattern' \<noteq> 0)\<rparr>) s;
            (now, s) = millis s;
            s = setCell cellIndex (\<lambda>c. c\<lparr>updateTime := now\<rparr>) s;
            s = setCell cellIndex (\<lambda>c. c\<lparr>needsUpdate := True\<rparr>) s;
            s = fold (\<lambda>dot s.
                   let absoluteDotIndex = (cellIndex * DOTS_PER_CELL + dot) mod 256;
                       dotShouldBeUp = (pattern' AND push_bit dot 1 \<noteq> 0)
                   in setDotState absoluteDotIndex dotShouldBeUp False s)
                 [0..<DOTS_PER_CELL] s;
            s = setCell cellIndex (\<lambda>c. c\<lparr>BrailleCell.currentState := pattern'\<rparr>) s
        in if displayEnabled s then processPendingActions s else s)"

definition getCellPattern :: "BrailleDisplay \<Rightarrow> nat \<Rightarrow> uint8_t" where
  "getCellPattern s cellIndex =
     (if \<not> isValidBrailleCell cellIndex then 0 else pattern (cells s ! cellIndex))"

definition getCurrentCellState :: "BrailleDisplay \<Rightarrow> nat \<Rightarrow> uint8_t" where
  "getCurrentCellState s cellIndex =
     (if \<not> isValidBrailleCell cellIndex then 0
      else BrailleCell.currentState (cells s ! cellIndex))"

definition isEnabled :: "BrailleDisplay \<Rightarrow> bool" where
  "isEnabled s = displayEnabled s"

text \<open>
  \<^verbatim>\<open>char\<close> comparisons are on the byte value. Whether \<^verbatim>\<open>char\<close> is signed or not
  on the target, a byte above 127 satisfies none of the range tests below and matches no
  \<^verbatim>\<open>case\<close> label, so the unsigned order of \<open>char\<close> decides every test as the
  firmware does.
\<close>

definition charToBraille :: "char \<Rightarrow> uint8_t" where
  "charToBraille c =
     (if CHR ''a'' \<le> c \<and> c \<le> CHR ''z'' then BRAILLE_ALPHABET ! (of_char c - of_char CHR ''a'')
      else if CHR ''A'' \<le> c \<and> c \<le> CHR ''Z'' then BRAILLE_ALPHABET ! (of_char c - of_char CHR ''A'')
      else if CHR ''0'' \<le> c \<and> c \<le> CHR ''9'' then BRAILLE_NUMBERS ! (of_char c - of_char CHR ''0'')
      else if c = CHR '' '' then BRAILLE_SPACE
      else if c = CHR ''!'' then BRAILLE_PUNCTUATION ! 1
      else if c = CHR 0x27 then BRAILLE_PUNCTUATION ! 2
      else if c = CHR ''-'' then BRAILLE_PUNCTUATION ! 3
      else if c = CHR ''.'' then BRAILLE_PUNCTUATION ! 4
      else if c = CHR '','' then BRAILLE_PUNCTUATION ! 5
      else if c = CHR ''?'' then BRAILLE_PUNCTUATION ! 6
      else if c = CHR '';'' then BRAILLE_PUNCTUATION ! 7
      else if c = CHR '':'' then BRAILLE_PUNCTUATION ! 8
      else 0)"

definition displayChar :: "char \<Rightarrow> nat \<Rightarrow> BrailleDisplay \<Rightarrow> BrailleDisplay" where
  "displayChar c cellIndex s =
     (if \<not> isValidBrailleCell cellIndex then s
      else let pattern' = charToBraille c in setCellPattern cellIndex pattern' s)"

text \<open>
  A C string: \<open>text_at text i\<close> is \<^verbatim>\<open>text[i]\<close>, the terminating NUL at
  index \<open>length text\<close>. \<open>c_str text\<close> is what the firmware sees of a byte sequence:
  the bytes before the first NUL.
\<close>

definition text_at :: "string \<Rightarrow> nat \<Rightarrow> char" where
  "text_at text i = (if i < length text then text ! i else CHR 0x00)"

definition c_str :: "string \<Rightarrow> string" where
  "c_str text = takeWhile (\<lambda>c. c \<noteq> CHR 0x00) text"

text \<open>The statement
  \<^verbatim>\<open>if (cellIndex < NUM_BRAILLE_CELLS) setCellPattern(cellIndex++, p);\<close>
  of \<^verbatim>\<open>displayText\<close>, on the pair of \<^verbatim>\<open>cellIndex\<close> and the display.\<close>

definition putCell :: "uint8_t \<Rightarrow> nat \<times> BrailleDisplay \<Rightarrow> nat \<times> BrailleDisplay" where
  "putCell p = (\<lambda>(cellIndex, s).
     if cellIndex < NUM_BRAILLE_CELLS then (cellIndex + 1, setCellPattern cellIndex p s)
     else (cellIndex, s))"

text \<open>One pass through the body of the \<^verbatim>\<open>while\<close> loop of \<^verbatim>\<open>displayText\<close>, on
  \<^verbatim>\<open>(cellIndex, textIndex, numberMode)\<close> and the display; \<^verbatim>\<open>textIndex\<close> is a
  \<^verbatim>\<open>uint8_t\<close> and wraps.\<close>

definition displayText_body ::
  "string \<Rightarrow> nat \<times> nat \<times> bool \<times> BrailleDisplay \<Rightarrow> nat \<times> nat \<times> bool \<times> BrailleDisplay" where
  "displayText_body text = (\<lambda>(cellIndex, textIndex, numberMode, s).
     let c = text_at text textIndex;
         (cellIndex, numberMode, s) =
           (if CHR ''0'' \<le> c \<and> c \<le> CHR ''9'' then
              let (cellIndex, numberMode, s) =
                    (if \<not> numberMode then
                       (if cellIndex < NUM_BRAILLE_CELLS then
                          (cellIndex + 1, True, setCellPattern cellIndex BRAILLE_NUMBER_SIGN s)
                        else (cellIndex, numberMode, s))
                     else (cellIndex, numberMode, s));
                  (cellIndex, s) =
                    putCell (BRAILLE_NUMBERS ! (of_char c - of_char CHR ''0'')) (cellIndex, s)
              in (cellIndex, numberMode, s)
            else if CHR ''A'' \<le> c \<and> c \<le> CHR ''Z'' then
              let (cellIndex, s) = putCell BRAILLE_CAPITAL_SIGN (cellIndex, s);
                  (cellIndex, s) =
                    putCell (BRAILLE_ALPHABET ! (of_char c - of_char CHR ''A'')) (cellIndex, s)
              in (cellIndex, False, s)
            else if CHR ''a'' \<le> c \<and> c \<le> CHR ''z'' then
              let (cellIndex, s) =
                    putCell (BRAILLE_ALPHABET ! (of_char c - of_char CHR ''a'')) (cellIndex, s)
              in (cellIndex, False, s)
            else if c = CHR '' '' then
              let (cellIndex, s) = putCell BRAILLE_SPACE (cellIndex, s)
              in (cellIndex, False, s)
            else
              let pattern' = charToBraille c;
                  (cellIndex, s) = putCell pattern' (cellIndex, s)
              in (cellIndex, False, s))
     in (cellIndex, (textIndex + 1) mod 256, numberMode, s))"

function displayText_loop ::
  "string \<Rightarrow> nat \<times> nat \<times> bool \<times> BrailleDisplay \<Rightarrow> nat \<times> nat \<times> bool \<times> BrailleDisplay" where
  "displayText_loop text st =
     (if text_at text (fst (snd st)) \<noteq> CHR 0x00 \<and> fst st < NUM_BRAILLE_CELLS
      then displayText_loop text (displayText_body text st)
      else st)"
  by pat_completeness auto
termination
  by (relation "measure (\<lambda>(text, st). NUM_BRAILLE_CELLS - fst st)")
     (auto simp: displayText_body_def putCell_def Let_def split: prod.splits if_splits)

declare displayText_loop.simps [simp del]

text \<open>\<^verbatim>\<open>displayText\<close>; a null \<^verbatim>\<open>text\<close> pointer is \<open>None\<close>. The result carries the
  number of cells the function reports on the console, \<^verbatim>\<open>cellIndex - startCell\<close>
  (\<open>None\<close> when it returns early and prints nothing).\<close>

definition displayText_cells ::
  "string option \<Rightarrow> nat \<Rightarrow> BrailleDisplay \<Rightarrow> nat option \<times> BrailleDisplay" where
  "displayText_cells text startCell s =
     (case text of
        None \<Rightarrow> (None, s)
      | Some text \<Rightarrow>
          if startCell \<ge> NUM_BRAILLE_CELLS then (None, s)
          else
            let s = clearDisplay s;
                (cellIndex, textIndex, numberMode, s) = displayText_loop text (startCell, 0, False, s)
            in (Some (cellIndex - startCell), s))"

definition displayText :: "string option \<Rightarrow> nat \<Rightarrow> BrailleDisplay \<Rightarrow> BrailleDisplay" where
  "displayText text startCell s = snd (displayText_cells text startCell s)"

definition displayMirroredPattern :: "nat \<Rightarrow> uint8_t \<Rightarrow> BrailleDisplay \<Rightarrow> BrailleDisplay" where
  "displayMirroredPattern cellIndex pattern' s =
     (let mirroredPattern = mirrorBraillePattern pattern'
      in setCellPattern cellIndex mirroredPattern s)"

definition displayMirroredText :: "string option \<Rightarrow> nat \<Rightarrow> BrailleDisplay \<Rightarrow> BrailleDisplay" where
  "displayMirroredText text startCell s =
     (let s = displayText text startCell s;
          s = fold (\<lambda>i s.
                 if isActive (cells s ! i) then
                   setCell i (\<lambda>c. c\<lparr>pattern := mirrorBraillePattern (pattern c)\<rparr>) s
                 else s)
               [startCell..<NUM_BRAILLE_CELLS] s;
          s = updateShiftRegisters s
      in if displayEnabled s then refresh s else s)"

definition raiseDot :: "nat \<Rightarrow> nat \<Rightarrow> BrailleDisplay \<Rightarrow> BrailleDisplay" where
  "raiseDot cellIndex dotIndex s =
     (if cellIndex \<ge> NUM_BRAILLE_CELLS \<or> dotIndex \<ge> DOTS_PER_CELL then s
      else let absoluteDotIndex = (cellIndex * DOTS_PER_CELL + dotIndex) mod 256
           in setDotState absoluteDotIndex True False s)"

definition lowerDot :: "nat \<Rightarrow> nat \<Rightarrow> BrailleDisplay \<Rightarrow> BrailleDisplay" where
  "lowerDot cellIndex dotIndex s =
     (if cellIndex \<ge> NUM_BRAILLE_CELLS \<or> dotIndex \<ge> DOTS_PER_CELL then s
      else let absoluteDotIndex = (cellIndex * DOTS_PER_CELL + dotIndex) mod 256
           in setDotState absoluteDotIndex False False s)"

definition raiseDotImmediate :: "nat \<Rightarrow> nat \<Rightarrow> BrailleDisplay \<Rightarrow> BrailleDisplay" where
  "raiseDotImmediate cellIndex dotIndex s =
     (if cellIndex \<ge> NUM_BRAILLE_CELLS \<or> dotIndex \<ge> DOTS_PER_CELL then s
      else let absoluteDotIndex = (cellIndex * DOTS_PER_CELL + dotIndex) mod 256
           in setDotState absoluteDotIndex True True s)"

definition lowerDotImmediate :: "nat \<Rightarrow> nat \<Rightarrow> BrailleDisplay \<Rightarrow> BrailleDisplay" where
  "lowerDotImmediate cellIndex dotIndex s =
     (if cellIndex \<ge> NUM_BRAILLE_CELLS \<or> dotIndex \<ge> DOTS_PER_CELL then s
      else let absoluteDotIndex = (cellIndex * DOTS_PER_CELL + dotIndex) mod 256
           in setDotState absoluteDotIndex False True s)"

subsection \<open>Test routines\<close>

definition testAllDots :: "BrailleDisplay \<Rightarrow> BrailleDisplay" where
  "testAllDots s =
     fold (\<lambda>cell s.
        setCellPattern cell 0
          (fold (\<lambda>dot s. setCellPattern cell (push_bit dot 1) s) [0..<DOTS_PER_CELL] s))
       [0..<NUM_BRAILLE_CELLS] (enable (clearDisplay s))"

definition testSequential :: "BrailleDisplay \<Rightarrow> BrailleDisplay" where
  "testSequential s =
     (let testPatterns = [0x01, 0x03, 0x07, 0x0F, 0x1F, 0x3F]
      in fold (\<lambda>i s.
           clearDisplay
             (fold (\<lambda>cell s. setCellPattern cell (testPatterns ! i) s) [0..<NUM_BRAILLE_CELLS] s))
         [0..<6] (enable (clearDisplay s)))"

definition testPattern :: "uint8_t \<Rightarrow> BrailleDisplay \<Rightarrow> BrailleDisplay" where
  "testPattern pattern' s =
     clearDisplay
       (fold (\<lambda>cell s. setCellPattern cell pattern' s) [0..<NUM_BRAILLE_CELLS]
          (enable (clearDisplay s)))"

definition testBidirectional :: "BrailleDisplay \<Rightarrow> BrailleDisplay" where
  "testBidirectional s =
     fold (\<lambda>cell s.
        fold (\<lambda>dot s. lowerDotImmediate cell dot (raiseDotImmediate cell dot s))
          [0..<DOTS_PER_CELL] s)
       [0..<min NUM_BRAILLE_CELLS 3] (enable (clearDisplay s))"

section \<open>Reachable states\<close>

text \<open>The public member functions that change the object, as calls with their arguments.\<close>

datatype call =
    Begin | Enable | Disable | ClearDisplay
  | SetCellPattern nat uint8_t
  | DisplayText "string option" nat
  | DisplayChar char nat
  | RaiseDot nat nat | LowerDot nat nat
  | RaiseDotImmediate nat nat | LowerDotImmediate nat nat
  | DisplayMirroredPattern nat uint8_t
  | DisplayMirroredText "string option" nat
  | Refresh | Update
  | TestAllDots | TestSequential | TestPattern uint8_t | TestBidirectional

fun exec :: "call \<Rightarrow> BrailleDisplay \<Rightarrow> BrailleDisplay" where
  "exec Begin = begin_display"
| "exec Enable = enable"
| "exec Disable = disable"
| "exec ClearDisplay = clearDisplay"
| "exec (SetCellPattern i p) = setCellPattern i p"
| "exec (DisplayText t i) = displayText t i"
| "exec (DisplayChar c i) = displayChar c i"
| "exec (RaiseDot i d) = raiseDot i d"
| "exec (LowerDot i d) = lowerDot i d"
| "exec (RaiseDotImmediate i d) = raiseDotImmediate i d"
| "exec (LowerDotImmediate i d) = lowerDotImmediate i d"
| "exec (DisplayMirroredPattern i p) = displayMirroredPattern i p"
| "exec (DisplayMirroredText t i) = displayMirroredText t i"
| "exec Refresh = refresh"
| "exec Update = update"
| "exec TestAllDots = testAllDots"
| "exec TestSequential = testSequential"
| "exec (TestPattern p) = testPattern p"
| "exec TestBidirectional = testBidirectional"

text \<open>The state after construction and a sequence of calls, and the states so reached.\<close>

definition run :: "call list \<Rightarrow> BrailleDisplay \<Rightarrow> BrailleDisplay" where
  "run calls s = fold exec calls s"

inductive reachable :: "BrailleDisplay \<Rightarrow> bool" where
  init: "reachable (BrailleDisplay_new clk)"
| step: "reachable s \<Longrightarrow> reachable (exec c s)"

section \<open>Properties stated about the display\<close>

text \<open>The three arrays have the sizes the class declares.\<close>

definition well_sized :: "BrailleDisplay \<Rightarrow> bool" where
  "well_sized s \<longleftrightarrow>
     length (cells s) = NUM_BRAILLE_CELLS \<and>
     length (dotStates s) = TOTAL_DOTS \<and>
     length (shiftRegisterData s) = NUM_SHIFT_REGISTERS"

definition sizes :: "BrailleDisplay \<Rightarrow> nat \<times> nat \<times> nat" where
  "sizes s = (length (cells s), length (dotStates s), length (shiftRegisterData s))"

text \<open>What one pass of the loop of \<^verbatim>\<open>processPendingActions\<close> at time \<open>t\<close> does to
  one \<^verbatim>\<open>DotState\<close>.\<close>

definition commit :: "ulong \<Rightarrow> DotState \<Rightarrow> DotState" where
  "commit t x =
     (if actionPending x \<and> actionTime x \<le> t
      then x\<lparr>DotState.currentState := targetState x, actionPending := False\<rparr>
      else x)"

text \<open>The first \<open>n\<close> passes of the dot loop of \<^verbatim>\<open>setCellPattern\<close> for cell \<open>i\<close> and
  pattern \<open>p\<close>, and what they do to dot \<open>j\<close> when the clock reads \<open>c\<close> during the
  loop: the dots \<open>i * 6 + k\<close>, \<open>k < n\<close>, are scheduled at the \<open>k\<close>-th reading.\<close>

definition dotLoop :: "nat \<Rightarrow> uint8_t \<Rightarrow> nat \<Rightarrow> BrailleDisplay \<Rightarrow> BrailleDisplay" where
  "dotLoop i p n s =
     fold (\<lambda>dot s. setDotState ((i * 6 + dot) mod 256) (p AND push_bit dot 1 \<noteq> 0) False s)
       [0..<n] s"

definition scheduled :: "nat \<Rightarrow> uint8_t \<Rightarrow> ulong stream \<Rightarrow> nat \<Rightarrow> nat \<Rightarrow> DotState \<Rightarrow> DotState" where
  "scheduled i p c n j x =
     (if i * 6 \<le> j \<and> j < i * 6 + n
      then x\<lparr>targetState := (p AND push_bit (j - i * 6) 1 \<noteq> 0),
             actionTime := c !! (j - i * 6) + ACTUATOR_SETTLE_TIME,
             actionPending := True\<rparr>
      else x)"

subsection \<open>Text encoding, in the words of the specification\<close>

text \<open>
  The specification's \<open>encodeText\<close>, written from its sentences and not from the loop
  of \<^verbatim>\<open>displayText\<close>: the character at position \<open>i\<close> contributes its own pattern,
  preceded by a NUMBER-SIGN cell when it is a digit that enters a run of digits (it is the
  first character or the previous character is not a digit), and by a CAPITAL-SIGN cell
  when it is an upper-case letter. The encoding of a text is the concatenation of these
  units.
\<close>

definition isDigit :: "char \<Rightarrow> bool" where
  "isDigit c \<longleftrightarrow> CHR ''0'' \<le> c \<and> c \<le> CHR ''9''"

definition isUpper :: "char \<Rightarrow> bool" where
  "isUpper c \<longleftrightarrow> CHR ''A'' \<le> c \<and> c \<le> CHR ''Z''"

definition encodeText_unit :: "string \<Rightarrow> nat \<Rightarrow> uint8_t list" where
  "encodeText_unit text i =
     (let c = text ! i
      in if isDigit c then
           (if i = 0 \<or> \<not> isDigit (text ! (i - 1)) then [BRAILLE_NUMBER_SIGN] else []) @
           [charToBraille c]
         else if isUpper c then [BRAILLE_CAPITAL_SIGN, charToBraille c]
         else [charToBraille c])"

definition encodeText :: "string \<Rightarrow> uint8_t list" where
  "encodeText text = concat (map (encodeText_unit text) [0..<length text])"

text \<open>
  The cells one pass of the loop of \<^verbatim>\<open>displayText\<close> asks for, for the character \<open>c\<close>
  and the flag \<^verbatim>\<open>numberMode\<close> (read off the branches of the loop body), and the cells
  the loop asks for on a text.
\<close>

definition cellsFor :: "bool \<Rightarrow> char \<Rightarrow> uint8_t list" where
  "cellsFor numberMode c =
     (if CHR ''0'' \<le> c \<and> c \<le> CHR ''9'' then
        (if \<not> numberMode then [BRAILLE_NUMBER_SIGN] else []) @
        [BRAILLE_NUMBERS ! (of_char c - of_char CHR ''0'')]
      else if CHR ''A'' \<le> c \<and> c \<le> CHR ''Z'' then
        [BRAILLE_CAPITAL_SIGN, BRAILLE_ALPHABET ! (of_char c - of_char CHR ''A'')]
      else if CHR ''a'' \<le> c \<and> c \<le> CHR ''z'' then
        [BRAILLE_ALPHABET ! (of_char c - of_char CHR ''a'')]
      else if c = CHR '' '' then [BRAILLE_SPACE]
      else [charToBraille c])"

fun cellsFrom :: "bool \<Rightarrow> string \<Rightarrow> uint8_t list" where
  "cellsFrom numberMode [] = []"
| "cellsFrom numberMode (c # cs) =
     cellsFor numberMode c @ cellsFrom (CHR ''0'' \<le> c \<and> c \<le> CHR ''9'') cs"

text \<open>The guarded write \<open>putCell\<close> on the cell index and the list of stored patterns.\<close>

definition putPattern :: "uint8_t \<Rightarrow> nat \<times> uint8_t list \<Rightarrow> nat \<times> uint8_t list" where
  "putPattern p = (\<lambda>(cellIndex, ps).
     if cellIndex < NUM_BRAILLE_CELLS then (cellIndex + 1, ps[cellIndex := p AND 0x3F])
     else (cellIndex, ps))"

definition patterns :: "BrailleDisplay \<Rightarrow> uint8_t list" where
  "patterns s = map pattern (cells s)"

text \<open>Output bit \<open>k\<close> of the buffer: bit \<open>k mod 8\<close> of register \<open>k div 8\<close>, the
  addressing of \<^verbatim>\<open>setShiftRegisterBit\<close>.\<close>

definition outputBit :: "BrailleDisplay \<Rightarrow> nat \<Rightarrow> bool" where
  "outputBit s k = bit (shiftRegisterData s ! (k div 8)) (k mod 8)"

text \<open>
  The two shapes of the output buffer: \<open>blank\<close>, no output bit set, and \<open>serialized\<close>,
  for every dot the raise bit (direction 0) equal to the dot's \<open>currentState\<close> and the
  retract bit (direction 1) equal to its negation. \<open>outs\<close> is what the two depend on.
\<close>

definition blank :: "BrailleDisplay \<Rightarrow> bool" where
  "blank s \<longleftrightarrow> (\<forall>k < TOTAL_OUTPUTS. \<not> outputBit s k)"

definition serialized :: "BrailleDisplay \<Rightarrow> bool" where
  "serialized s \<longleftrightarrow>
     (\<forall>d < TOTAL_DOTS.
        outputBit s (getDotOutputIndex d DOT_DIRECTION_UP) =
          DotState.currentState (dotStates s ! d) \<and>
        outputBit s (getDotOutputIndex d DOT_DIRECTION_DOWN) =
          (\<not> DotState.currentState (dotStates s ! d)))"

definition buffer_inv :: "BrailleDisplay \<Rightarrow> bool" where
  "buffer_inv s \<longleftrightarrow> well_sized s \<and> (blank s \<or> serialized s)"

definition outs :: "BrailleDisplay \<Rightarrow> uint8_t list \<times> bool list" where
  "outs s = (shiftRegisterData s, map DotState.currentState (dotStates s))"

section \<open>Mirroring\<close>

lemma and_push_bit_1_neq_0: "(p::uint8_t) AND push_bit n 1 \<noteq> 0 \<longleftrightarrow> bit p n"
proof
  assume "p AND push_bit n 1 \<noteq> 0"
  then obtain m where "bit (p AND push_bit n 1) m"
    by (auto simp: bit_eq_iff)
  then show "bit p n"
    by (auto simp: bit_simps)
next
  assume "bit p n"
  then have "bit (p AND push_bit n 1) n"
    by (auto simp: bit_simps dest: bit_imp_le_length)
  then show "p AND push_bit n 1 \<noteq> 0"
    by auto
qed

lemma mask_test_bit:
  fixes p :: uint8_t
  shows "p AND 1 \<noteq> 0 \<longleftrightarrow> bit p 0" "p AND 2 \<noteq> 0 \<longleftrightarrow> bit p 1" "p AND 4 \<noteq> 0 \<longleftrightarrow> bit p 2"
    "p AND 8 \<noteq> 0 \<longleftrightarrow> bit p 3" "p AND 16 \<noteq> 0 \<longleftrightarrow> bit p 4" "p AND 32 \<noteq> 0 \<longleftrightarrow> bit p 5"
  using and_push_bit_1_neq_0[of p 0] and_push_bit_1_neq_0[of p 1] and_push_bit_1_neq_0[of p 2]
    and_push_bit_1_neq_0[of p 3] and_push_bit_1_neq_0[of p 4] and_push_bit_1_neq_0[of p 5]
  by simp_all

lemma bit_single_int:
  "bit (2::int) j \<longleftrightarrow> j = 1" "bit (4::int) j \<longleftrightarrow> j = 2" "bit (8::int) j \<longleftrightarrow> j = 3"
  "bit (16::int) j \<longleftrightarrow> j = 4" "bit (32::int) j \<longleftrightarrow> j = 5"
proof -
  have "bit (push_bit k (1::int)) j \<longleftrightarrow> j = k" for k
    by (auto simp: bit_simps)
  from this[of 1] this[of 2] this[of 3] this[of 4] this[of 5]
  show "bit (2::int) j \<longleftrightarrow> j = 1" "bit (4::int) j \<longleftrightarrow> j = 2" "bit (8::int) j \<longleftrightarrow> j = 3"
    "bit (16::int) j \<longleftrightarrow> j = 4" "bit (32::int) j \<longleftrightarrow> j = 5"
    by simp_all
qed

lemma bit_mirrorBraillePattern:
  "bit (mirrorBraillePattern p) i \<longleftrightarrow> i < 6 \<and> bit p ((i + 3) mod 6)"
proof -
  consider "i = 0" | "i = 1" | "i = 2" | "i = 3" | "i = 4" | "i = 5" | "i \<ge> 6"
    by linarith
  then show ?thesis
    by cases
      (simp_all add: mirrorBraillePattern_def Let_def mask_test_bit bit_single_int
         bit_or_iff bit_1_iff)
qed

lemma six_bit_high_clear:
  assumes "(p::uint8_t) \<le> 0x3F" and "6 \<le> k"
  shows "\<not> bit p k"
proof -
  from assms(1) have "p < 2 ^ 6"
    by (simp add: word_less_nat_alt word_le_nat_alt)
  then have "p AND mask 6 = p"
    by (rule less_mask_eq)
  then have "bit p k = bit (p AND mask 6) k"
    by simp
  also have "\<dots> = False"
    using assms(2) by (simp add: bit_and_iff bit_mask_iff)
  finally show ?thesis by simp
qed

text \<open>
  Claim C7. \<open>mirrorBraillePattern\<close> exchanges dots 1 and 4, 2 and 5, 3 and 6 (bit \<open>i\<close> of
  the result is bit \<open>(i + 3) mod 6\<close> of the argument, and bits 6 and 7 of the result are
  clear), and applying it twice to a 6-bit pattern \<open>p \<le> 0x3F\<close> gives \<open>p\<close> back.
\<close>

theorem mirrorBraillePattern_involution:
  "(\<forall>i. bit (mirrorBraillePattern p) i \<longleftrightarrow> i < 6 \<and> bit p ((i + 3) mod 6)) \<and>
   (p \<le> 0x3F \<longrightarrow> mirrorBraillePattern (mirrorBraillePattern p) = p)"
proof (intro conjI allI impI)
  fix i show "bit (mirrorBraillePattern p) i \<longleftrightarrow> i < 6 \<and> bit p ((i + 3) mod 6)"
    by (rule bit_mirrorBraillePattern)
next
  assume le: "p \<le> 0x3F"
  show "mirrorBraillePattern (mirrorBraillePattern p) = p"
  proof (rule bit_eqI)
    fix n :: nat
    consider "n = 0" | "n = 1" | "n = 2" | "n = 3" | "n = 4" | "n = 5" | "n \<ge> 6"
      by linarith
    then show "bit (mirrorBraillePattern (mirrorBraillePattern p)) n = bit p n"
      using six_bit_high_clear[OF le, of n]
      by cases (simp_all add: bit_mirrorBraillePattern)
  qed
qed

theorem mirrorBraillePattern_involution_witness:
  "(0x25::uint8_t) \<le> 0x3F \<and> mirrorBraillePattern (mirrorBraillePattern 0x25) = 0x25"
  using mirrorBraillePattern_involution[of "0x25"] by simp

section \<open>What each operation leaves unchanged\<close>

lemma fold_frame: "(\<And>x s. g (f x s) = g s) \<Longrightarrow> g (fold f xs s) = g s"
  by (induction xs arbitrary: s) simp_all

lemma setCell_simps [simp]:
  "cells (setCell i f s) = (cells s)[i := f (cells s ! i)]"
  "dotStates (setCell i f s) = dotStates s"
  "shiftRegisterData (setCell i f s) = shiftRegisterData s"
  "displayEnabled (setCell i f s) = displayEnabled s"
  "clock (setCell i f s) = clock s"
  by (simp_all add: setCell_def)

lemma setDot_simps [simp]:
  "cells (setDot i f s) = cells s"
  "dotStates (setDot i f s) = (dotStates s)[i := f (dotStates s ! i)]"
  "shiftRegisterData (setDot i f s) = shiftRegisterData s"
  "displayEnabled (setDot i f s) = displayEnabled s"
  "clock (setDot i f s) = clock s"
  by (simp_all add: setDot_def)

lemma clearShiftRegisters_frame [simp]:
  "cells (clearShiftRegisters s) = cells s"
  "dotStates (clearShiftRegisters s) = dotStates s"
  "displayEnabled (clearShiftRegisters s) = displayEnabled s"
  "clock (clearShiftRegisters s) = clock s"
  unfolding clearShiftRegisters_def
  by (rule fold_frame, simp)+

lemma setShiftRegisterBit_frame [simp]:
  "cells (setShiftRegisterBit k b s) = cells s"
  "dotStates (setShiftRegisterBit k b s) = dotStates s"
  "displayEnabled (setShiftRegisterBit k b s) = displayEnabled s"
  "clock (setShiftRegisterBit k b s) = clock s"
  by (simp_all add: setShiftRegisterBit_def Let_def)

lemma updateShiftRegisters_body_frame [simp]:
  "cells (updateShiftRegisters_body d s) = cells s"
  "dotStates (updateShiftRegisters_body d s) = dotStates s"
  "displayEnabled (updateShiftRegisters_body d s) = displayEnabled s"
  "clock (updateShiftRegisters_body d s) = clock s"
  by (simp_all add: updateShiftRegisters_body_def Let_def)

lemma updateShiftRegisters_frame [simp]:
  "cells (updateShiftRegisters s) = cells s"
  "dotStates (updateShiftRegisters s) = dotStates s"
  "displayEnabled (updateShiftRegisters s) = displayEnabled s"
  "clock (updateShiftRegisters s) = clock s"
  unfolding updateShiftRegisters_def
  by (subst fold_frame, simp, simp)+

lemma refresh_frame [simp]:
  "cells (refresh s) = cells s"
  "dotStates (refresh s) = dotStates s"
  "shiftRegisterData (refresh s) = shiftRegisterData s"
  "displayEnabled (refresh s) = displayEnabled s"
  by (simp_all add: refresh_def millis_def Let_def)

lemma setDotState_frame [simp]:
  "cells (setDotState d b imm s) = cells s"
  "displayEnabled (setDotState d b imm s) = displayEnabled s"
  by (simp_all add: setDotState_def millis_def Let_def)

lemma processPendingActions_body_frame [simp]:
  "cells (fst (processPendingActions_body t i a)) = cells (fst a)"
  "displayEnabled (fst (processPendingActions_body t i a)) = displayEnabled (fst a)"
  "shiftRegisterData (fst (processPendingActions_body t i a)) = shiftRegisterData (fst a)"
  "clock (fst (processPendingActions_body t i a)) = clock (fst a)"
  by (simp_all add: processPendingActions_body_def case_prod_beta)

lemma processPendingActions_loop_frame [simp]:
  "cells (fst (fold (processPendingActions_body t) xs a)) = cells (fst a)"
  "displayEnabled (fst (fold (processPendingActions_body t) xs a)) = displayEnabled (fst a)"
  "shiftRegisterData (fst (fold (processPendingActions_body t) xs a)) = shiftRegisterData (fst a)"
  "clock (fst (fold (processPendingActions_body t) xs a)) = clock (fst a)"
  by (induction xs arbitrary: a) simp_all

lemma processPendingActions_frame [simp]:
  "cells (processPendingActions s) = cells s"
  "displayEnabled (processPendingActions s) = displayEnabled s"
  by (simp_all add: processPendingActions_def millis_def Let_def case_prod_beta)

lemma setCellPattern_dots_frame [simp]:
  "cells (fold (\<lambda>dot s. setDotState (g dot) (h dot) False s) xs s) = cells s"
  "displayEnabled (fold (\<lambda>dot s. setDotState (g dot) (h dot) False s) xs s) = displayEnabled s"
  by (induction xs arbitrary: s) simp_all

lemma cells_setCellPattern:
  "cellIndex < 10 \<Longrightarrow>
   cells (setCellPattern cellIndex p s) =
     (cells s)[cellIndex := (cells s ! cellIndex)
        \<lparr>pattern := p AND 0x3F, isActive := (p \<noteq> 0), updateTime := shd (clock s),
         needsUpdate := True, BrailleCell.currentState := p\<rparr>]"
  unfolding setCellPattern_def isValidBrailleCell_def
  by (cases "cellIndex < length (cells s)") (simp_all add: Let_def millis_def list_update_beyond)

lemma charToBraille_upper:
  "k < 26 \<Longrightarrow> charToBraille (char_of (of_char CHR ''A'' + k :: nat)) = BRAILLE_ALPHABET ! k"
  by (simp add: charToBraille_def less_eq_char_def)

lemma charToBraille_lower:
  "k < 26 \<Longrightarrow> charToBraille (char_of (of_char CHR ''a'' + k :: nat)) = BRAILLE_ALPHABET ! k"
  by (simp add: charToBraille_def less_eq_char_def)

lemma BRAILLE_ALPHABET_six_bit: "\<forall>p \<in> set BRAILLE_ALPHABET. p AND 0x3F = p"
  by (simp add: BRAILLE_ALPHABET_def)
lemma BRAILLE_NUMBERS_six_bit: "\<forall>p \<in> set BRAILLE_NUMBERS. p AND 0x3F = p"
  by (simp add: BRAILLE_NUMBERS_def)
lemma BRAILLE_PUNCTUATION_six_bit: "\<forall>p \<in> set BRAILLE_PUNCTUATION. p AND 0x3F = p"
  by (simp add: BRAILLE_PUNCTUATION_def)

lemma BRAILLE_ALPHABET_nth_six_bit:
  assumes "k < 26" shows "BRAILLE_ALPHABET ! k AND 0x3F = BRAILLE_ALPHABET ! k"
proof -
  have "length BRAILLE_ALPHABET = 26"
    by (simp add: BRAILLE_ALPHABET_def)
  with assms have "BRAILLE_ALPHABET ! k \<in> set BRAILLE_ALPHABET"
    by simp
  with BRAILLE_ALPHABET_six_bit show ?thesis
    by blast
qed

lemma BRAILLE_NUMBERS_nth_six_bit:
  assumes "k < 10" shows "BRAILLE_NUMBERS ! k AND 0x3F = BRAILLE_NUMBERS ! k"
proof -
  have "length BRAILLE_NUMBERS = 10"
    by (simp add: BRAILLE_NUMBERS_def)
  with assms have "BRAILLE_NUMBERS ! k \<in> set BRAILLE_NUMBERS"
    by simp
  with BRAILLE_NUMBERS_six_bit show ?thesis
    by blast
qed

lemma charToBraille_six_bit: "charToBraille c AND 0x3F = charToBraille c"
proof -
  have p: "BRAILLE_PUNCTUATION ! k AND 0x3F = BRAILLE_PUNCTUATION ! k" if "k < 16" for k
  proof -
    have "length BRAILLE_PUNCTUATION = 16"
      by (simp add: BRAILLE_PUNCTUATION_def)
    with that have "BRAILLE_PUNCTUATION ! k \<in> set BRAILLE_PUNCTUATION"
      by simp
    with BRAILLE_PUNCTUATION_six_bit show ?thesis
      by blast
  qed
  show ?thesis
    unfolding charToBraille_def
    by (auto simp: less_eq_char_def BRAILLE_ALPHABET_nth_six_bit BRAILLE_NUMBERS_nth_six_bit p)
qed

section \<open>Array sizes\<close>

lemma well_sized_sizes: "well_sized s \<longleftrightarrow> sizes s = (10, 60, 15)"
  by (simp add: well_sized_def sizes_def)

lemma sizes_update [simp]:
  "sizes (s\<lparr>clock := c\<rparr>) = sizes s"
  "sizes (s\<lparr>lastUpdateTime := t\<rparr>) = sizes s"
  "sizes (s\<lparr>shiftedOut := b\<rparr>) = sizes s"
  "sizes (s\<lparr>displayEnabled := e\<rparr>) = sizes s"
  by (simp_all add: sizes_def)

lemma sizes_setCell [simp]: "sizes (setCell i f s) = sizes s"
  by (simp add: sizes_def)

lemma sizes_setDot [simp]: "sizes (setDot i f s) = sizes s"
  by (simp add: sizes_def)

lemma sizes_clearShiftRegisters [simp]: "sizes (clearShiftRegisters s) = sizes s"
  unfolding clearShiftRegisters_def
  by (rule fold_frame) (simp add: sizes_def)

lemma sizes_setShiftRegisterBit [simp]: "sizes (setShiftRegisterBit k b s) = sizes s"
  by (simp add: setShiftRegisterBit_def Let_def sizes_def)

lemma sizes_updateShiftRegisters_body [simp]: "sizes (updateShiftRegisters_body d s) = sizes s"
  by (simp add: updateShiftRegisters_body_def Let_def)

lemma sizes_updateShiftRegisters [simp]: "sizes (updateShiftRegisters s) = sizes s"
  unfolding updateShiftRegisters_def
  by (subst fold_frame) simp_all

lemma sizes_refresh [simp]: "sizes (refresh s) = sizes s"
  by (simp add: refresh_def millis_def Let_def)

lemma sizes_setDotState [simp]: "sizes (setDotState d b imm s) = sizes s"
  by (simp add: setDotState_def millis_def Let_def)

lemma sizes_processPendingActions_body [simp]:
  "sizes (fst (processPendingActions_body t i a)) = sizes (fst a)"
  by (simp add: processPendingActions_body_def case_prod_beta)

lemma sizes_processPendingActions_loop [simp]:
  "sizes (fst (fold (processPendingActions_body t) xs a)) = sizes (fst a)"
  by (induction xs arbitrary: a) simp_all

lemma sizes_processPendingActions [simp]: "sizes (processPendingActions s) = sizes s"
  by (simp add: processPendingActions_def millis_def Let_def case_prod_beta)

lemma sizes_enable [simp]: "sizes (enable s) = sizes s"
  by (simp add: enable_def)

lemma sizes_disable [simp]: "sizes (disable s) = sizes s"
  by (simp add: disable_def)

lemma sizes_clearDisplay [simp]: "sizes (clearDisplay s) = sizes s"
  unfolding clearDisplay_def Let_def
  by (simp add: fold_frame[where g = sizes] millis_def)

lemma sizes_setCellPattern [simp]: "sizes (setCellPattern i p s) = sizes s"
  unfolding setCellPattern_def Let_def
  by (simp add: fold_frame[where g = sizes] millis_def)

lemma sizes_putCell [simp]: "sizes (snd (putCell p a)) = sizes (snd a)"
  by (simp add: putCell_def case_prod_beta)

lemma sizes_displayText_body [simp]:
  "sizes (snd (snd (snd (displayText_body text st)))) = sizes (snd (snd (snd st)))"
  by (simp add: displayText_body_def Let_def case_prod_beta)

lemma sizes_displayText_loop [simp]:
  "sizes (snd (snd (snd (displayText_loop t st)))) = sizes (snd (snd (snd st)))"
proof (induction t st rule: displayText_loop.induct)
  case (1 t st)
  show ?case
    by (subst displayText_loop.simps) (simp add: "1.IH")
qed

lemma sizes_displayText [simp]: "sizes (displayText text i s) = sizes s"
  by (simp add: displayText_def displayText_cells_def Let_def case_prod_beta split: option.splits)

lemma sizes_displayChar [simp]: "sizes (displayChar c i s) = sizes s"
  by (simp add: displayChar_def)

lemma sizes_displayMirroredPattern [simp]: "sizes (displayMirroredPattern i p s) = sizes s"
  by (simp add: displayMirroredPattern_def)

lemma sizes_displayMirroredText [simp]: "sizes (displayMirroredText text i s) = sizes s"
  unfolding displayMirroredText_def Let_def
  by (simp add: fold_frame[where g = sizes])

lemma sizes_dots [simp]:
  "sizes (raiseDot i d s) = sizes s"
  "sizes (lowerDot i d s) = sizes s"
  "sizes (raiseDotImmediate i d s) = sizes s"
  "sizes (lowerDotImmediate i d s) = sizes s"
  by (simp_all add: raiseDot_def lowerDot_def raiseDotImmediate_def lowerDotImmediate_def)

lemma sizes_tests [simp]:
  "sizes (testAllDots s) = sizes s"
  "sizes (testSequential s) = sizes s"
  "sizes (testPattern p s) = sizes s"
  "sizes (testBidirectional s) = sizes s"
  unfolding testAllDots_def testSequential_def testPattern_def testBidirectional_def Let_def
  by (simp_all add: fold_frame[where g = sizes])

lemma sizes_exec [simp]: "sizes (exec c s) = sizes s"
  by (cases c) (simp_all add: begin_display_def update_def)

lemma well_sized_new: "well_sized (BrailleDisplay_new clk)"
  by (simp add: well_sized_sizes BrailleDisplay_new_def) (simp add: sizes_def)

lemma reachable_well_sized: "reachable s \<Longrightarrow> well_sized s"
  by (induction rule: reachable.induct) (simp_all add: well_sized_new, simp add: well_sized_sizes)

section \<open>Cell patterns\<close>

text \<open>
  Claim C8. For every valid cell index \<open>i < 10\<close> and every pattern byte \<open>p\<close>,
  \<open>getCellPattern\<close> after \<open>setCellPattern i p\<close> returns \<open>p AND 0x3F\<close>, on any display
  whose arrays have their declared sizes.
\<close>

theorem getCellPattern_setCellPattern:
  assumes "i < 10" and "well_sized s"
  shows "getCellPattern (setCellPattern i p s) i = p AND 0x3F"
  using assms
  by (simp add: getCellPattern_def isValidBrailleCell_def cells_setCellPattern well_sized_def)

theorem getCellPattern_setCellPattern_witness:
  "(3::nat) < 10 \<and> well_sized (BrailleDisplay_new (sconst 0)) \<and>
   getCellPattern (setCellPattern 3 0xFF (BrailleDisplay_new (sconst 0))) 3 = 0x3F"
  using getCellPattern_setCellPattern[of 3 "BrailleDisplay_new (sconst 0)" "0xFF"]
  by (simp add: well_sized_new)

lemma cells_new:
  "cells (BrailleDisplay_new clk) =
     replicate 10
       \<lparr>pattern = 0, currentState = 0, isActive = False, updateTime = 0, needsUpdate = False\<rparr>"
  by (simp add: BrailleDisplay_new_def)

text \<open>
  Claim C9 (the firmware at the input \<open>setCellPattern(0, 0x40)\<close> on a fresh display).
  \<open>isActive\<close> is computed from the pattern byte as passed, before masking: the cell is
  marked active although the pattern stored for it, and returned by \<open>getCellPattern\<close>,
  is 0.
\<close>

theorem setCellPattern_isActive_unmasked:
  "isActive (cells (setCellPattern 0 0x40 (BrailleDisplay_new (sconst 0))) ! 0) \<and>
   getCellPattern (setCellPattern 0 0x40 (BrailleDisplay_new (sconst 0))) 0 = 0"
  by (simp add: cells_setCellPattern getCellPattern_def isValidBrailleCell_def cells_new)

text \<open>
  Claim C10. \<open>charToBraille\<close> gives the upper-case and the lower-case form of the
  \<open>k\<close>-th letter the same pattern, entry \<open>k\<close> of \<open>BRAILLE_ALPHABET\<close>; so
  \<open>displayChar\<close> of an upper-case letter at a valid cell \<open>i\<close> stores that bare letter
  pattern in cell \<open>i\<close> and changes the pattern of no other cell: no capital sign is
  written anywhere.
\<close>

theorem displayChar_upper_no_capital_sign:
  "k < 26 \<Longrightarrow>
   charToBraille (char_of (of_char CHR ''A'' + k :: nat)) =
     charToBraille (char_of (of_char CHR ''a'' + k :: nat)) \<and>
   (i < 10 \<longrightarrow>
      map pattern (cells (displayChar (char_of (of_char CHR ''A'' + k :: nat)) i s)) =
        (map pattern (cells s))[i := BRAILLE_ALPHABET ! k])"
  by (simp add: charToBraille_upper charToBraille_lower displayChar_def isValidBrailleCell_def
      cells_setCellPattern map_update BRAILLE_ALPHABET_nth_six_bit del: of_char_Char)

theorem displayChar_upper_no_capital_sign_witness:
  "(2::nat) < 26 \<and> charToBraille CHR ''C'' = charToBraille CHR ''c'' \<and> (4::nat) < 10 \<and>
   map pattern (cells (displayChar CHR ''C'' 4 (BrailleDisplay_new (sconst 0)))) =
     [0, 0, 0, 0, 0x09, 0, 0, 0, 0, 0]"
proof -
  have c: "char_of (67::nat) = CHR ''C''" "char_of (99::nat) = CHR ''c''"
    by code_simp+
  have r: "(replicate 10 (0::uint8_t))[4 := 9] = [0, 0, 0, 0, 9, 0, 0, 0, 0, 0]"
    by code_simp
  show ?thesis
    using displayChar_upper_no_capital_sign[of 2 4 "BrailleDisplay_new (sconst 0)"]
    by (simp add: cells_new BRAILLE_ALPHABET_def c r)
qed

section \<open>Actuator scheduling\<close>

lemma dotStates_setDotState_deferred:
  "d < 60 \<Longrightarrow> d < length (dotStates s) \<Longrightarrow>
   dotStates (setDotState d b False s) =
     (dotStates s)[d := (dotStates s ! d)
        \<lparr>targetState := b, actionTime := shd (clock s) + ACTUATOR_SETTLE_TIME,
         actionPending := True\<rparr>]"
  by (simp add: setDotState_def millis_def Let_def)

lemma clock_setDotState_deferred:
  "d < 60 \<Longrightarrow> clock (setDotState d b False s) = stl (clock s)"
  by (simp add: setDotState_def millis_def Let_def)

lemma dotStates_processPendingActions_body:
  "dotStates (fst (processPendingActions_body t i a)) =
     (dotStates (fst a))[i := commit t (dotStates (fst a) ! i)]"
  by (cases "i < length (dotStates (fst a))")
     (simp_all add: processPendingActions_body_def case_prod_beta commit_def list_update_beyond)

lemma dotStates_processPendingActions_loop:
  "n \<le> length (dotStates (fst a)) \<Longrightarrow>
   dotStates (fst (fold (processPendingActions_body t) [0..<n] a)) =
     map (commit t) (take n (dotStates (fst a))) @ drop n (dotStates (fst a))"
proof (induction n)
  case 0
  then show ?case by simp
next
  case (Suc n)
  let ?xs = "dotStates (fst a)"
  from Suc.prems have n: "n < length ?xs" by simp
  have "(map (commit t) (take n ?xs) @ drop n ?xs)[n := commit t ((map (commit t) (take n ?xs) @ drop n ?xs) ! n)]
      = map (commit t) (take (Suc n) ?xs) @ drop (Suc n) ?xs"
    using n by (simp add: list_update_append nth_append take_Suc_conv_app_nth
        Cons_nth_drop_Suc[symmetric])
  with Suc.IH n show ?case
    by (simp add: dotStates_processPendingActions_body)
qed

lemma updateNeeded_processPendingActions_body:
  "snd (processPendingActions_body t i a) \<longleftrightarrow>
     snd a \<or> (actionPending (dotStates (fst a) ! i) \<and> actionTime (dotStates (fst a) ! i) \<le> t)"
  by (auto simp: processPendingActions_body_def case_prod_beta)

lemma dotStates_processPendingActions:
  assumes "length (dotStates s) = 60"
  shows "dotStates (processPendingActions s) = map (commit (shd (clock s))) (dotStates s)"
  using dotStates_processPendingActions_loop[of 60 "(s\<lparr>clock := stl (clock s)\<rparr>, False)" "shd (clock s)"] assms
  by (simp add: processPendingActions_def millis_def Let_def case_prod_beta)

lemma dotStates_new:
  "dotStates (BrailleDisplay_new clk) =
     replicate 60
       \<lparr>targetState = False, currentState = False, actionTime = 0, actionPending = False\<rparr>"
  by (simp add: BrailleDisplay_new_def)

lemma clock_new: "clock (BrailleDisplay_new clk) = clk"
  by (simp add: BrailleDisplay_new_def)

text \<open>
  Claim C2. After a deferred \<open>setDotState d st False\<close> on a valid dot \<open>d < 60\<close>, at the
  time \<open>now\<close> read by the call, the dot's \<open>targetState\<close> is \<open>st\<close>, \<open>actionPending\<close>
  is set, \<open>actionTime\<close> is \<open>now + ACTUATOR_SETTLE_TIME\<close> (in 32-bit arithmetic) and
  \<open>currentState\<close> is as before. A following \<open>update\<close> that reads a time \<open>t\<close> below
  \<open>actionTime\<close> leaves \<open>currentState\<close> as it was (and the action pending); one that
  reads \<open>t \<ge> actionTime\<close> sets \<open>currentState\<close> to \<open>targetState\<close> and clears
  \<open>actionPending\<close>.
\<close>

theorem deferred_setDotState_then_update:
  assumes "well_sized s" and "d < 60"
  shows "let now = shd (clock s);
             s1 = setDotState d st False s;
             t = shd (clock s1);
             s2 = update s1;
             x = dotStates s ! d; x1 = dotStates s1 ! d; x2 = dotStates s2 ! d
         in targetState x1 = st \<and> actionPending x1 \<and>
            actionTime x1 = now + ACTUATOR_SETTLE_TIME \<and>
            DotState.currentState x1 = DotState.currentState x \<and>
            (t < actionTime x1 \<longrightarrow>
               DotState.currentState x2 = DotState.currentState x \<and> actionPending x2) \<and>
            (actionTime x1 \<le> t \<longrightarrow>
               DotState.currentState x2 = targetState x1 \<and> \<not> actionPending x2)"
proof -
  from assms have len: "length (dotStates s) = 60" "d < length (dotStates s)"
    by (simp_all add: well_sized_def)
  have len1: "length (dotStates (setDotState d st False s)) = 60"
    using len assms(2) by (simp add: dotStates_setDotState_deferred)
  show ?thesis
    using len assms(2)
    by (auto simp: Let_def update_def dotStates_processPendingActions[OF len1]
        dotStates_setDotState_deferred commit_def)
qed

theorem deferred_setDotState_then_update_witness:
  "well_sized (BrailleDisplay_new (100 ## sconst 120)) \<and> (5::nat) < 60 \<and>
   actionTime (dotStates (setDotState 5 True False (BrailleDisplay_new (100 ## sconst 120))) ! 5) = 150 \<and>
   \<not> DotState.currentState
       (dotStates (update (setDotState 5 True False (BrailleDisplay_new (100 ## sconst 120)))) ! 5) \<and>
   well_sized (BrailleDisplay_new (100 ## sconst 150)) \<and>
   DotState.currentState
       (dotStates (update (setDotState 5 True False (BrailleDisplay_new (100 ## sconst 150)))) ! 5)"
  using deferred_setDotState_then_update[of "BrailleDisplay_new (100 ## sconst 120)" 5 True]
    deferred_setDotState_then_update[of "BrailleDisplay_new (100 ## sconst 150)" 5 True]
  by (simp add: well_sized_new Let_def clock_new clock_setDotState_deferred dotStates_new)

text \<open>
  Claim C3, as amended. When a dot already has an action pending, a further deferred
  \<open>setDotState\<close> overwrites \<open>targetState\<close> (the last write wins) and also overwrites
  \<open>actionTime\<close> with \<open>now + ACTUATOR_SETTLE_TIME\<close>, whatever was scheduled before; the
  replaced target is not committed by an \<open>update\<close> that reads a time below the new
  \<open>actionTime\<close>.
\<close>

theorem deferred_setDotState_reschedules:
  assumes "well_sized s" and "d < 60" and "actionPending (dotStates s ! d)"
  shows "let now = shd (clock s);
             s1 = setDotState d st False s;
             t = shd (clock s1);
             s2 = update s1;
             x = dotStates s ! d; x1 = dotStates s1 ! d; x2 = dotStates s2 ! d
         in targetState x1 = st \<and> actionPending x1 \<and>
            actionTime x1 = now + ACTUATOR_SETTLE_TIME \<and>
            (t < now + ACTUATOR_SETTLE_TIME \<longrightarrow>
               DotState.currentState x2 = DotState.currentState x \<and> actionPending x2)"
proof -
  from assms have len: "length (dotStates s) = 60" "d < length (dotStates s)"
    by (simp_all add: well_sized_def)
  have len1: "length (dotStates (setDotState d st False s)) = 60"
    using len assms(2) by (simp add: dotStates_setDotState_deferred)
  show ?thesis
    using len assms(2)
    by (auto simp: Let_def update_def dotStates_processPendingActions[OF len1]
        dotStates_setDotState_deferred commit_def)
qed

text \<open>
  Claim C3 as first stated fails: a dot scheduled at time 0 (commit at 50) and rescheduled
  at time 30 has its \<open>actionTime\<close> moved from 50 to 80.
\<close>

theorem deferred_setDotState_keeps_actionTime_counterexample:
  "actionPending (dotStates (setDotState 0 True False (BrailleDisplay_new (0 ## sconst 30))) ! 0) \<and>
   actionTime (dotStates (setDotState 0 True False (BrailleDisplay_new (0 ## sconst 30))) ! 0) = 50 \<and>
   actionTime (dotStates (setDotState 0 False False
     (setDotState 0 True False (BrailleDisplay_new (0 ## sconst 30)))) ! 0) = 80"
  by (simp add: dotStates_setDotState_deferred clock_setDotState_deferred dotStates_new clock_new)

lemma well_sized_setDotState [simp]: "well_sized (setDotState d b imm s) = well_sized s"
  by (simp add: well_sized_sizes)

theorem deferred_setDotState_reschedules_witness:
  "well_sized (setDotState 0 True False (BrailleDisplay_new (0 ## 30 ## sconst 60))) \<and> (0::nat) < 60 \<and>
   actionPending (dotStates (setDotState 0 True False (BrailleDisplay_new (0 ## 30 ## sconst 60))) ! 0) \<and>
   shd (clock (setDotState 0 False False
     (setDotState 0 True False (BrailleDisplay_new (0 ## 30 ## sconst 60))))) < 30 + ACTUATOR_SETTLE_TIME \<and>
   \<not> DotState.currentState (dotStates (update (setDotState 0 False False
     (setDotState 0 True False (BrailleDisplay_new (0 ## 30 ## sconst 60))))) ! 0)"
  using deferred_setDotState_reschedules[of "setDotState 0 True False (BrailleDisplay_new (0 ## 30 ## sconst 60))" 0 False]
  by (simp add: well_sized_new Let_def clock_new clock_setDotState_deferred dotStates_new
      dotStates_setDotState_deferred)

lemma dotStates_enable: "dotStates (enable s) = dotStates s"
  by (simp add: enable_def)

lemma clock_enable_new: "clock (enable (BrailleDisplay_new (sconst t))) = sconst t"
  by (simp add: enable_def refresh_def millis_def Let_def clock_new)

subsection \<open>Scheduling by \<open>setCellPattern\<close>\<close>

lemma stl_sdrop_Suc: "stl (sdrop n c) = sdrop (Suc n) c"
  by (rule sdrop_simps)

lemma shd_sdrop_snth: "shd (sdrop n c) = c !! n"
  by (rule sdrop_simps)

lemma dotLoop_0: "dotLoop i p 0 s = s"
  by (simp add: dotLoop_def)

lemma dotLoop_Suc:
  "i * 6 + n < 256 \<Longrightarrow>
   dotLoop i p (Suc n) s =
     setDotState (i * 6 + n) (p AND push_bit n 1 \<noteq> 0) False (dotLoop i p n s)"
  by (simp add: dotLoop_def)

lemma scheduled_0: "scheduled i p c 0 j x = x"
  by (auto simp: scheduled_def)

lemma scheduled_Suc:
  "scheduled i p c (Suc n) j x =
     (if j = i * 6 + n
      then x\<lparr>targetState := (p AND push_bit n 1 \<noteq> 0),
             actionTime := c !! n + ACTUATOR_SETTLE_TIME,
             actionPending := True\<rparr>
      else scheduled i p c n j x)"
  by (auto simp: scheduled_def)

lemma dotLoop_effect:
  assumes "i < 10" and "length (dotStates s) = 60" and "n \<le> 6"
  shows "clock (dotLoop i p n s) = sdrop n (clock s) \<and>
         length (dotStates (dotLoop i p n s)) = 60 \<and>
         (\<forall>j. dotStates (dotLoop i p n s) ! j = scheduled i p (clock s) n j (dotStates s ! j))"
  using assms(3)
proof (induction n)
  case 0
  show ?case
    by (simp add: dotLoop_0 scheduled_0 assms(2))
next
  case (Suc n)
  let ?s = "dotLoop i p n s"
  from Suc have IH: "clock ?s = sdrop n (clock s)" "length (dotStates ?s) = 60"
    "\<And>j. dotStates ?s ! j = scheduled i p (clock s) n j (dotStates s ! j)"
    by simp_all
  from Suc.prems assms(1) have d: "i * 6 + n < 60" "i * 6 + n < 256"
    by simp_all
  note step = dotLoop_Suc[OF d(2), of p s]
  have c: "clock (dotLoop i p (Suc n) s) = sdrop (Suc n) (clock s)"
    unfolding step using d(1) by (simp only: clock_setDotState_deferred IH stl_sdrop_Suc)
  have ds: "dotStates (dotLoop i p (Suc n) s) =
      (dotStates ?s)[i * 6 + n := (dotStates ?s ! (i * 6 + n))
        \<lparr>targetState := (p AND push_bit n 1 \<noteq> 0),
         actionTime := clock s !! n + ACTUATOR_SETTLE_TIME,
         actionPending := True\<rparr>]"
    unfolding step using d(1) IH(2)
    by (simp add: dotStates_setDotState_deferred IH(1) shd_sdrop_snth del: ACTUATOR_SETTLE_TIME_def)
  have nth: "(dotStates ?s)[i * 6 + n := y] ! j = (if j = i * 6 + n then y else dotStates ?s ! j)" for y j
    using d(1) IH(2) by (auto simp: nth_list_update)
  have sch0: "scheduled i p (clock s) n (i * 6 + n) x = x" for x
    by (simp add: scheduled_def)
  have "dotStates (dotLoop i p (Suc n) s) ! j
      = scheduled i p (clock s) (Suc n) j (dotStates s ! j)" for j
    unfolding ds nth IH(3) scheduled_Suc
    by (simp add: sch0)
  moreover have "length (dotStates (dotLoop i p (Suc n) s)) = 60"
    unfolding ds using IH(2) by simp
  ultimately show ?case
    using c by blast
qed

lemma setCellPattern_unfold:
  "i < 10 \<Longrightarrow>
   setCellPattern i p s =
     (let s = setCell i (\<lambda>c. c\<lparr>pattern := p AND 0x3F\<rparr>) s;
          s = setCell i (\<lambda>c. c\<lparr>isActive := (p \<noteq> 0)\<rparr>) s;
          (now, s) = millis s;
          s = setCell i (\<lambda>c. c\<lparr>updateTime := now\<rparr>) s;
          s = setCell i (\<lambda>c. c\<lparr>needsUpdate := True\<rparr>) s;
          s = dotLoop i p 6 s;
          s = setCell i (\<lambda>c. c\<lparr>BrailleCell.currentState := p\<rparr>) s
      in if displayEnabled s then processPendingActions s else s)"
  by (simp add: setCellPattern_def isValidBrailleCell_def dotLoop_def Let_def)

lemma displayEnabled_dotLoop [simp]: "displayEnabled (dotLoop i p n s) = displayEnabled s"
  by (simp add: dotLoop_def fold_frame[where g = displayEnabled])

lemma dotStates_setCellPattern:
  assumes "i < 10" and "well_sized s" and "j < 60"
  shows "dotStates (setCellPattern i p s) ! j =
     (let x = scheduled i p (stl (clock s)) 6 j (dotStates s ! j)
      in if displayEnabled s then commit (clock s !! 7) x else x)"
proof -
  let ?s0 = "setCell i (\<lambda>c. c\<lparr>needsUpdate := True\<rparr>)
     (setCell i (\<lambda>c. c\<lparr>updateTime := shd (clock s)\<rparr>)
       (setCell i (\<lambda>c. c\<lparr>isActive := (p \<noteq> 0)\<rparr>)
         (setCell i (\<lambda>c. c\<lparr>pattern := p AND 0x3F\<rparr>) s)\<lparr>clock := stl (clock s)\<rparr>))"
  have s0: "dotStates ?s0 = dotStates s" "clock ?s0 = stl (clock s)" "displayEnabled ?s0 = displayEnabled s"
    by (simp_all add: setCell_def)
  from assms(2) have len: "length (dotStates ?s0) = 60"
    by (simp add: s0 well_sized_def)
  note L = dotLoop_effect[OF assms(1) len, of 6 p, simplified s0]
  let ?s1 = "setCell i (\<lambda>c. c\<lparr>BrailleCell.currentState := p\<rparr>) (dotLoop i p 6 ?s0)"
  have s1: "dotStates ?s1 = dotStates (dotLoop i p 6 ?s0)" "clock ?s1 = sdrop 6 (stl (clock s))"
    "length (dotStates ?s1) = 60"
    using L by simp_all
  have "(7::nat) = Suc 6"
    by simp
  then have t': "stl (clock s) !! 6 = clock s !! 7"
    by (simp only: snth.simps)
  then have t: "shd (sdrop 6 (stl (clock s))) = clock s !! 7"
    by (simp add: shd_sdrop_snth)
  have eq: "setCellPattern i p s = (if displayEnabled s then processPendingActions ?s1 else ?s1)"
    unfolding setCellPattern_unfold[OF assms(1)] by (simp add: Let_def millis_def)
  show ?thesis
    unfolding eq using L assms(3)
    by (simp add: dotStates_processPendingActions[OF s1(3)] s1(1,2) t t' Let_def del: setCell_simps)
qed

lemma displayEnabled_enable: "displayEnabled (enable s)"
  by (simp add: enable_def)

lemma well_sized_enable [simp]: "well_sized (enable s) = well_sized s"
  by (simp add: well_sized_sizes)

text \<open>
  Claim C4 (the firmware at the input \<open>setCellPattern(0, 0x01)\<close> on an enabled, freshly
  constructed display, with \<open>millis()\<close> reading 1000 throughout the call). Dot 0 is
  scheduled to be raised, but the \<open>processPendingActions\<close> that ends the call reads a
  time below the \<open>actionTime\<close> just set: the dot's \<open>currentState\<close> is still retracted
  and its action still pending when the call returns.
\<close>

theorem setCellPattern_enabled_not_committed:
  "displayEnabled (enable (BrailleDisplay_new (sconst 1000))) \<and>
   targetState (dotStates (setCellPattern 0 0x01 (enable (BrailleDisplay_new (sconst 1000)))) ! 0) \<and>
   \<not> DotState.currentState
       (dotStates (setCellPattern 0 0x01 (enable (BrailleDisplay_new (sconst 1000)))) ! 0) \<and>
   actionPending (dotStates (setCellPattern 0 0x01 (enable (BrailleDisplay_new (sconst 1000)))) ! 0)"
proof -
  have ws: "well_sized (enable (BrailleDisplay_new (sconst 1000)))"
    by (simp add: well_sized_new)
  show ?thesis
    by (simp add: dotStates_setCellPattern[OF _ ws] displayEnabled_enable dotStates_enable
        clock_enable_new dotStates_new scheduled_def commit_def Let_def)
qed

section \<open>Text encoding\<close>

lemma putCell_putPattern:
  "(fst (putCell p a), patterns (snd (putCell p a))) = putPattern p (fst a, patterns (snd a))"
  by (simp add: putCell_def putPattern_def patterns_def case_prod_beta cells_setCellPattern map_update)

lemma putPattern_apply:
  "putPattern p (ci, P) = (if ci < 10 then (Suc ci, P[ci := p AND 0x3F]) else (ci, P))"
  by (simp add: putPattern_def)

lemma putPattern_full: "10 \<le> ci \<Longrightarrow> fold putPattern E (ci, P) = (ci, P)"
  by (induction E) (simp_all add: putPattern_def)

lemma fold_putPattern:
  assumes "length P = 10" and "ci \<le> 10" and "\<forall>p \<in> set E. p AND 0x3F = p"
  shows "fold putPattern E (ci, P) =
           (min 10 (ci + length E), take 10 (take ci P @ E @ drop (ci + length E) P))"
  using assms
proof (induction E arbitrary: ci P)
  case Nil
  then show ?case by simp
next
  case (Cons p E)
  show ?case
  proof (cases "ci < 10")
    case True
    have t: "take (Suc ci) (P[ci := p]) = take ci P @ [p]"
      using True Cons.prems(1) by (simp add: take_Suc_conv_app_nth)
    have "fold putPattern (p # E) (ci, P) = fold putPattern E (Suc ci, P[ci := p])"
      using True Cons.prems(3) by (simp add: putPattern_def)
    also have "\<dots> = (min 10 (Suc ci + length E),
        take 10 (take (Suc ci) (P[ci := p]) @ E @ drop (Suc ci + length E) (P[ci := p])))"
      using True Cons.prems by (intro Cons.IH) simp_all
    finally show ?thesis
      by (simp add: t)
  next
    case False
    with Cons.prems have "ci = 10" by simp
    then show ?thesis
      using Cons.prems(1) putPattern_full[of ci "p # E" P] by simp
  qed
qed

lemma cellsFor_nonempty: "cellsFor nm c \<noteq> []"
  by (simp add: cellsFor_def)

lemma cellsFor_six_bit: "\<forall>p \<in> set (cellsFor nm c). p AND 0x3F = p"
  by (auto simp: cellsFor_def less_eq_char_def BRAILLE_ALPHABET_nth_six_bit
      BRAILLE_NUMBERS_nth_six_bit charToBraille_six_bit)

lemma cellsFrom_six_bit: "\<forall>p \<in> set (cellsFrom nm cs). p AND 0x3F = p"
  using cellsFor_six_bit by (induction cs arbitrary: nm) auto

lemma cellsFor_encodeText_unit:
  assumes "i < length cs" and "nm \<longleftrightarrow> 0 < i \<and> isDigit (cs ! (i - 1))"
  shows "cellsFor nm (cs ! i) = encodeText_unit cs i"
  using assms(2)
  by (auto simp: cellsFor_def encodeText_unit_def isDigit_def isUpper_def charToBraille_def
      less_eq_char_def Let_def)

lemma cellsFrom_encodeText_units:
  assumes "i \<le> length cs" and "nm \<longleftrightarrow> 0 < i \<and> isDigit (cs ! (i - 1))"
  shows "cellsFrom nm (drop i cs) = concat (map (encodeText_unit cs) [i..<length cs])"
  using assms
proof (induction "length cs - i" arbitrary: i nm)
  case 0
  then show ?case by simp
next
  case (Suc k)
  then have i: "i < length cs" by simp
  have d: "drop i cs = cs ! i # drop (Suc i) cs"
    using i by (simp add: Cons_nth_drop_Suc)
  have u: "[i..<length cs] = i # [Suc i..<length cs]"
    using i by (simp add: upt_conv_Cons)
  have "cellsFrom (CHR ''0'' \<le> cs ! i \<and> cs ! i \<le> CHR ''9'') (drop (Suc i) cs)
        = concat (map (encodeText_unit cs) [Suc i..<length cs])"
    using Suc.hyps(2) i by (intro Suc.hyps(1)) (simp_all add: isDigit_def)
  then show ?case
    unfolding d u using cellsFor_encodeText_unit[OF i Suc.prems(2)]
    by simp
qed

lemma cellsFrom_encodeText: "cellsFrom False cs = encodeText cs"
  using cellsFrom_encodeText_units[of 0 cs False] by (simp add: encodeText_def)

lemma fold_putPattern_mono: "ci \<le> fst (fold putPattern E (ci, P))"
proof (induction E arbitrary: ci P)
  case Nil
  show ?case by simp
next
  case (Cons p E)
  show ?case
  proof (cases "ci < 10")
    case True
    have "Suc ci \<le> fst (fold putPattern E (Suc ci, P[ci := p AND 0x3F]))"
      by (rule Cons.IH)
    with True show ?thesis
      by (simp add: putPattern_apply)
  next
    case False
    then show ?thesis
      by (simp add: putPattern_apply putPattern_full)
  qed
qed

lemma fold_putPattern_index:
  assumes "ci < 10" and "E \<noteq> []"
  shows "ci < fst (fold putPattern E (ci, P))"
proof -
  from assms(2) obtain p E' where E: "E = p # E'"
    by (cases E) auto
  have "Suc ci \<le> fst (fold putPattern E' (Suc ci, P[ci := p AND 0x3F]))"
    by (rule fold_putPattern_mono)
  with assms(1) show ?thesis
    by (simp add: E putPattern_apply)
qed

lemma putCell_fold:
  "(fst (putCell p (ci, s)), patterns (snd (putCell p (ci, s)))) = fold putPattern [p] (ci, patterns s)"
  using putCell_putPattern[of p "(ci, s)"] by simp

lemma displayText_body_cells:
  assumes "ci < 10"
  shows "(fst (displayText_body t (ci, ti, nm, s)),
          patterns (snd (snd (snd (displayText_body t (ci, ti, nm, s)))))) =
           fold putPattern (cellsFor nm (text_at t ti)) (ci, patterns s) \<and>
         fst (snd (displayText_body t (ci, ti, nm, s))) = (ti + 1) mod 256 \<and>
         fst (snd (snd (displayText_body t (ci, ti, nm, s)))) =
           (CHR ''0'' \<le> text_at t ti \<and> text_at t ti \<le> CHR ''9'')"
proof -
  have two: "(fst (putCell q (putCell p (ci, s))), patterns (snd (putCell q (putCell p (ci, s)))))
      = putPattern q (putPattern p (ci, patterns s))" for p q
    using putCell_putPattern[of q "putCell p (ci, s)"] putCell_putPattern[of p "(ci, s)"]
    by simp
  have one: "(fst (putCell p (ci, s)), patterns (snd (putCell p (ci, s))))
      = putPattern p (ci, patterns s)" for p
    using putCell_putPattern[of p "(ci, s)"] by simp
  have ns: "(Suc ci, setCellPattern ci BRAILLE_NUMBER_SIGN s) = putCell BRAILLE_NUMBER_SIGN (ci, s)"
    using assms by (simp add: putCell_def)
  let ?c = "text_at t ti"
  consider (digit) "CHR ''0'' \<le> ?c \<and> ?c \<le> CHR ''9''"
    | (upper) "\<not> (CHR ''0'' \<le> ?c \<and> ?c \<le> CHR ''9'')" "CHR ''A'' \<le> ?c \<and> ?c \<le> CHR ''Z''"
    | (lower) "\<not> (CHR ''0'' \<le> ?c \<and> ?c \<le> CHR ''9'')" "\<not> (CHR ''A'' \<le> ?c \<and> ?c \<le> CHR ''Z'')"
        "CHR ''a'' \<le> ?c \<and> ?c \<le> CHR ''z''"
    | (other) "\<not> (CHR ''0'' \<le> ?c \<and> ?c \<le> CHR ''9'')" "\<not> (CHR ''A'' \<le> ?c \<and> ?c \<le> CHR ''Z'')"
        "\<not> (CHR ''a'' \<le> ?c \<and> ?c \<le> CHR ''z'')"
    by blast
  then show ?thesis
  proof cases
    case digit
    then have c: "(CHR ''0'' \<le> ?c \<and> ?c \<le> CHR ''9'') = True"
      by simp
    show ?thesis
    proof (cases nm)
      case True
      with assms show ?thesis
        unfolding displayText_body_def cellsFor_def Let_def case_prod_beta
        by (simp add: c one
            del: BRAILLE_NUMBER_SIGN_def BRAILLE_CAPITAL_SIGN_def BRAILLE_SPACE_def)
    next
      case False
      with assms show ?thesis
        unfolding displayText_body_def cellsFor_def Let_def case_prod_beta
        by (simp add: c ns two
            del: BRAILLE_NUMBER_SIGN_def BRAILLE_CAPITAL_SIGN_def BRAILLE_SPACE_def)
    qed
  next
    case upper
    then have c: "(CHR ''0'' \<le> ?c \<and> ?c \<le> CHR ''9'') = False"
      "(CHR ''A'' \<le> ?c \<and> ?c \<le> CHR ''Z'') = True"
      by simp_all
    from assms show ?thesis
      unfolding displayText_body_def cellsFor_def Let_def case_prod_beta
      by (simp add: c two
          del: BRAILLE_NUMBER_SIGN_def BRAILLE_CAPITAL_SIGN_def BRAILLE_SPACE_def)
  next
    case lower
    then have c: "(CHR ''0'' \<le> ?c \<and> ?c \<le> CHR ''9'') = False"
      "(CHR ''A'' \<le> ?c \<and> ?c \<le> CHR ''Z'') = False"
      "(CHR ''a'' \<le> ?c \<and> ?c \<le> CHR ''z'') = True"
      by simp_all
    from assms show ?thesis
      unfolding displayText_body_def cellsFor_def Let_def case_prod_beta
      by (simp add: c one
          del: BRAILLE_NUMBER_SIGN_def BRAILLE_CAPITAL_SIGN_def BRAILLE_SPACE_def)
  next
    case other
    then have c: "(CHR ''0'' \<le> ?c \<and> ?c \<le> CHR ''9'') = False"
      "(CHR ''A'' \<le> ?c \<and> ?c \<le> CHR ''Z'') = False"
      "(CHR ''a'' \<le> ?c \<and> ?c \<le> CHR ''z'') = False"
      by simp_all
    from assms show ?thesis
      unfolding displayText_body_def cellsFor_def Let_def case_prod_beta
      by (simp add: c one
          del: BRAILLE_NUMBER_SIGN_def BRAILLE_CAPITAL_SIGN_def BRAILLE_SPACE_def)
  qed
qed

lemma text_at_c_str:
  assumes "ti \<le> length (c_str t)"
  shows "text_at t ti \<noteq> CHR 0x00 \<longleftrightarrow> ti < length (c_str t)"
    and "ti < length (c_str t) \<Longrightarrow> text_at t ti = c_str t ! ti"
proof -
  let ?P = "\<lambda>c. c \<noteq> CHR 0x00"
  have le: "length (c_str t) \<le> length t"
    by (simp add: c_str_def length_takeWhile_le)
  show nth: "text_at t ti = c_str t ! ti" if "ti < length (c_str t)"
    using that le by (simp add: text_at_def c_str_def takeWhile_nth)
  show "text_at t ti \<noteq> CHR 0x00 \<longleftrightarrow> ti < length (c_str t)"
  proof (cases "ti < length (c_str t)")
    case True
    then have "c_str t ! ti \<in> set (takeWhile ?P t)"
      by (simp add: c_str_def)
    then have "?P (c_str t ! ti)"
      by (rule set_takeWhileD[THEN conjunct2])
    with True nth show ?thesis
      by simp
  next
    case False
    with assms have eq: "ti = length (takeWhile ?P t)"
      by (simp add: c_str_def)
    have "text_at t ti = CHR 0x00"
    proof (cases "ti < length t")
      case True
      with eq have "\<not> ?P (t ! ti)"
        using nth_length_takeWhile[of ?P t] by simp
      with True show ?thesis
        by (simp add: text_at_def)
    next
      case False
      then show ?thesis
        by (simp add: text_at_def)
    qed
    with False show ?thesis
      by simp
  qed
qed

lemma displayText_loop_cells:
  assumes "ti \<le> length (c_str t)" and "ti \<le> ci"
  shows "(fst (displayText_loop t (ci, ti, nm, s)),
          patterns (snd (snd (snd (displayText_loop t (ci, ti, nm, s)))))) =
           fold putPattern (cellsFrom nm (drop ti (c_str t))) (ci, patterns s)"
  using assms
proof (induction t "(ci, ti, nm, s)" arbitrary: ci ti nm s rule: displayText_loop.induct)
  case (1 t)
  let ?st = "(ci, ti, nm, s)"
  show ?case
  proof (cases "text_at t ti \<noteq> CHR 0x00 \<and> ci < 10")
    case True
    then have ti: "ti < length (c_str t)" and ci: "ci < 10"
      using text_at_c_str(1)[OF "1.prems"(1)] by simp_all
    have c: "text_at t ti = c_str t ! ti"
      using ti "1.prems"(1) by (simp add: text_at_c_str(2))
    obtain ci' ti' nm' s' where b: "displayText_body t ?st = (ci', ti', nm', s')"
      by (cases "displayText_body t ?st") auto
    from displayText_body_cells[OF ci, of t ti nm s] b
    have B: "(ci', patterns s') = fold putPattern (cellsFor nm (c_str t ! ti)) (ci, patterns s)"
      "ti' = (ti + 1) mod 256" "nm' = (CHR ''0'' \<le> c_str t ! ti \<and> c_str t ! ti \<le> CHR ''9'')"
      by (simp_all add: c)
    from "1.prems"(2) ci have ti': "ti' = Suc ti"
      by (simp add: B(2))
    have "ci < ci'"
      using fold_putPattern_index[OF ci cellsFor_nonempty, of nm "c_str t ! ti" "patterns s"] B(1)[symmetric]
      by simp
    with "1.prems"(2) have le: "ti' \<le> ci'"
      by (simp add: ti')
    have IH: "(fst (displayText_loop t (ci', ti', nm', s')),
          patterns (snd (snd (snd (displayText_loop t (ci', ti', nm', s')))))) =
           fold putPattern (cellsFrom nm' (drop ti' (c_str t))) (ci', patterns s')"
      using True ti le by (intro "1.hyps"[OF _ b]) (simp_all add: ti')
    have d: "drop ti (c_str t) = c_str t ! ti # drop (Suc ti) (c_str t)"
      using ti by (simp add: Cons_nth_drop_Suc)
    have L: "displayText_loop t ?st = displayText_loop t (ci', ti', nm', s')"
      using True by (subst displayText_loop.simps) (simp add: b)
    have "cellsFrom nm (drop ti (c_str t)) =
        cellsFor nm (c_str t ! ti) @ cellsFrom nm' (drop ti' (c_str t))"
      unfolding d ti' B(3) by simp
    then have "fold putPattern (cellsFrom nm (drop ti (c_str t))) (ci, patterns s) =
        fold putPattern (cellsFrom nm' (drop ti' (c_str t)))
          (fold putPattern (cellsFor nm (c_str t ! ti)) (ci, patterns s))"
      by simp
    also have "\<dots> = fold putPattern (cellsFrom nm' (drop ti' (c_str t))) (ci', patterns s')"
      by (simp only: B(1))
    finally show ?thesis
      unfolding L IH by simp
  next
    case False
    then have stop: "displayText_loop t ?st = ?st"
      by (subst displayText_loop.simps) auto
    show ?thesis
    proof (cases "ci < 10")
      case True
      with False have "\<not> ti < length (c_str t)"
        using text_at_c_str(1)[OF "1.prems"(1)] by simp
      then show ?thesis
        by (simp add: stop)
    next
      case False
      then show ?thesis
        by (simp add: stop putPattern_full)
    qed
  qed
qed

lemma fold_commute: "(\<And>x s. h (f x s) = g x (h s)) \<Longrightarrow> h (fold f xs s) = fold g xs (h s)"
  by (induction xs arbitrary: s) simp_all

lemma fold_blank:
  "n \<le> length P \<Longrightarrow> fold (\<lambda>i P. P[i := 0::uint8_t]) [0..<n] P = replicate n 0 @ drop n P"
proof (induction n)
  case 0
  then show ?case by simp
next
  case (Suc n)
  then have n: "n < length P" by simp
  have "(replicate n 0 @ drop n P)[n := 0] = replicate (Suc n) 0 @ drop (Suc n) P"
    using n by (simp add: list_update_append Cons_nth_drop_Suc[symmetric] replicate_append_same)
  with Suc.IH n show ?case
    by simp
qed

lemma patterns_clearDisplay:
  assumes "length (cells s) = 10"
  shows "patterns (clearDisplay s) = replicate 10 0"
proof -
  let ?body = "\<lambda>i s.
     let s = setCell i (\<lambda>c. c\<lparr>pattern := 0\<rparr>) s;
         s = setCell i (\<lambda>c. c\<lparr>BrailleCell.currentState := 0\<rparr>) s;
         s = setCell i (\<lambda>c. c\<lparr>isActive := False\<rparr>) s;
         (now, s) = millis s;
         s = setCell i (\<lambda>c. c\<lparr>updateTime := now\<rparr>) s
     in setCell i (\<lambda>c. c\<lparr>needsUpdate := True\<rparr>) s"
  have b: "patterns (?body i s) = (patterns s)[i := 0]" for i s
    by (cases "i < length (cells s)")
       (simp_all add: patterns_def Let_def millis_def map_update list_update_beyond)
  have "patterns (fold ?body [0..<10] s) = fold (\<lambda>i P. P[i := 0]) [0..<10] (patterns s)"
    by (rule fold_commute) (rule b)
  also have "\<dots> = replicate 10 0"
    using assms fold_blank[of 10 "patterns s"] by (simp add: patterns_def)
  finally have c: "patterns (fold ?body [0..<10] s) = replicate 10 0" .
  have "patterns (clearDisplay s) = patterns (fold ?body [0..<10] s)"
    unfolding clearDisplay_def patterns_def Let_def
    by (simp add: fold_frame[where g = cells])
  with c show ?thesis
    by simp
qed

lemma displayText_cells_patterns:
  assumes "well_sized s" and "startCell < 10"
  shows "fst (displayText_cells (Some t) startCell s) =
           Some (min (10 - startCell) (length (encodeText (c_str t)))) \<and>
         patterns (snd (displayText_cells (Some t) startCell s)) =
           take 10 (replicate startCell 0 @ encodeText (c_str t) @ replicate 10 0)"
proof -
  let ?E = "encodeText (c_str t)"
  let ?s = "clearDisplay s"
  from assms(1) have P: "patterns ?s = replicate 10 0"
    by (simp add: patterns_clearDisplay well_sized_def)
  have six: "\<forall>p \<in> set ?E. p AND 0x3F = p"
    using cellsFrom_six_bit[of False "c_str t"] by (simp add: cellsFrom_encodeText)
  have "(fst (displayText_loop t (startCell, 0, False, ?s)),
         patterns (snd (snd (snd (displayText_loop t (startCell, 0, False, ?s)))))) =
        fold putPattern ?E (startCell, replicate 10 0)"
    using displayText_loop_cells[of 0 t startCell False ?s]
    by (simp add: cellsFrom_encodeText P)
  also have "\<dots> = (min 10 (startCell + length ?E),
      take 10 (take startCell (replicate 10 0) @ ?E @ drop (startCell + length ?E) (replicate 10 0)))"
    using assms(2) six by (intro fold_putPattern) simp_all
  finally have L: "fst (displayText_loop t (startCell, 0, False, ?s)) = min 10 (startCell + length ?E)"
    "patterns (snd (snd (snd (displayText_loop t (startCell, 0, False, ?s))))) =
       take 10 (take startCell (replicate 10 0) @ ?E @ drop (startCell + length ?E) (replicate 10 0))"
    by simp_all
  have z: "take 10 (take startCell (replicate 10 (0::uint8_t)) @ ?E @ drop (startCell + length ?E) (replicate 10 0))
      = take 10 (replicate startCell 0 @ ?E @ replicate 10 0)"
    using assms(2) by (simp add: min_def)
  have cnt: "min 10 (startCell + length ?E) - startCell = min (10 - startCell) (length ?E)"
    by arith
  show ?thesis
    using assms(2)
    by (simp add: displayText_cells_def Let_def case_prod_beta L z cnt)
qed

lemma encodeText_examples:
  "encodeText ''5'' = [BRAILLE_NUMBER_SIGN, BRAILLE_NUMBERS ! 5]"
  "encodeText ''Ab'' = [BRAILLE_CAPITAL_SIGN, BRAILLE_ALPHABET ! 0, BRAILLE_ALPHABET ! 1]"
  by (simp_all add: encodeText_def encodeText_unit_def isDigit_def isUpper_def charToBraille_def
      less_eq_char_def upt_rec[of 0] upt_rec[of 1] upt_rec[of "Suc 0"] upt_rec[of 2] Let_def)

lemma patterns_new: "patterns (BrailleDisplay_new clk) = replicate 10 0"
  by (simp add: patterns_def cells_new)

lemma encodeText_abc: "encodeText ''abc'' = [0x01, 0x03, 0x09]"
  by code_simp

lemma c_str_examples: "c_str ''abc'' = ''abc''" "c_str ''Ab'' = ''Ab''" "c_str ''A'' = ''A''" "c_str ''5'' = ''5''"
  by (simp_all add: c_str_def)

text \<open>
  Claim C5. Whenever the encoding of the text fits into the cells from \<open>startCell\<close> on,
  \<open>displayText\<close> writes exactly the cells of \<open>encodeText\<close> (one NUMBER-SIGN cell
  immediately before the first digit of each maximal run of digits and none before its
  other digits, one CAPITAL-SIGN cell immediately before each upper-case letter and none
  before any other character), starting at \<open>startCell\<close>, leaves every other cell blank
  and reports their number. In particular the text "5" gives exactly the 2 cells
  NUMBER-SIGN, digit 5, and "Ab" exactly the 3 cells CAPITAL-SIGN, letter A, letter b.
\<close>

theorem displayText_encodes:
  "(well_sized s \<and> startCell < 10 \<and> length (encodeText (c_str t)) \<le> 10 - startCell \<longrightarrow>
      fst (displayText_cells (Some t) startCell s) = Some (length (encodeText (c_str t))) \<and>
      patterns (displayText (Some t) startCell s) =
        replicate startCell 0 @ encodeText (c_str t) @
        replicate (10 - startCell - length (encodeText (c_str t))) 0) \<and>
   encodeText ''5'' = [BRAILLE_NUMBER_SIGN, BRAILLE_NUMBERS ! 5] \<and>
   encodeText ''Ab'' = [BRAILLE_CAPITAL_SIGN, BRAILLE_ALPHABET ! 0, BRAILLE_ALPHABET ! 1] \<and>
   (well_sized s \<longrightarrow>
      fst (displayText_cells (Some ''5'') 0 s) = Some 2 \<and>
      patterns (displayText (Some ''5'') 0 s) =
        [BRAILLE_NUMBER_SIGN, BRAILLE_NUMBERS ! 5] @ replicate 8 0 \<and>
      fst (displayText_cells (Some ''Ab'') 0 s) = Some 3 \<and>
      patterns (displayText (Some ''Ab'') 0 s) =
        [BRAILLE_CAPITAL_SIGN, BRAILLE_ALPHABET ! 0, BRAILLE_ALPHABET ! 1] @ replicate 7 0)"
proof (intro conjI impI)
  assume a: "well_sized s \<and> startCell < 10 \<and> length (encodeText (c_str t)) \<le> 10 - startCell"
  then have ws: "well_sized s" and st: "startCell < 10" by simp_all
  note G = displayText_cells_patterns[OF ws st, of t]
  from a show "fst (displayText_cells (Some t) startCell s) = Some (length (encodeText (c_str t)))"
    using G by (simp add: min_def)
  from a show "patterns (displayText (Some t) startCell s) =
        replicate startCell 0 @ encodeText (c_str t) @
        replicate (10 - startCell - length (encodeText (c_str t))) 0"
    using G by (simp add: displayText_def)
next
  show "encodeText ''5'' = [BRAILLE_NUMBER_SIGN, BRAILLE_NUMBERS ! 5]"
    by (rule encodeText_examples)
  show "encodeText ''Ab'' = [BRAILLE_CAPITAL_SIGN, BRAILLE_ALPHABET ! 0, BRAILLE_ALPHABET ! 1]"
    by (rule encodeText_examples)
next
  assume ws: "well_sized s"
  have r: "replicate 10 (0::uint8_t) = [0,0,0,0,0,0,0,0,0,0]" "replicate 8 (0::uint8_t) = [0,0,0,0,0,0,0,0]"
     "replicate 7 (0::uint8_t) = [0,0,0,0,0,0,0]"
    by code_simp+
  note G5 = displayText_cells_patterns[OF ws, of 0 "''5''"]
  note GA = displayText_cells_patterns[OF ws, of 0 "''Ab''"]
  show "fst (displayText_cells (Some ''5'') 0 s) = Some 2"
    using G5 by (simp add: c_str_examples encodeText_examples)
  show "patterns (displayText (Some ''5'') 0 s) = [BRAILLE_NUMBER_SIGN, BRAILLE_NUMBERS ! 5] @ replicate 8 0"
    using G5 by (simp add: c_str_examples encodeText_examples displayText_def r)
  show "fst (displayText_cells (Some ''Ab'') 0 s) = Some 3"
    using GA by (simp add: c_str_examples encodeText_examples)
  show "patterns (displayText (Some ''Ab'') 0 s) =
        [BRAILLE_CAPITAL_SIGN, BRAILLE_ALPHABET ! 0, BRAILLE_ALPHABET ! 1] @ replicate 7 0"
    using GA by (simp add: c_str_examples encodeText_examples displayText_def r)
qed

theorem displayText_encodes_witness:
  "well_sized (BrailleDisplay_new (sconst 0)) \<and> (3::nat) < 10 \<and>
   length (encodeText (c_str ''Ab'')) \<le> 10 - 3 \<and>
   fst (displayText_cells (Some ''Ab'') 3 (BrailleDisplay_new (sconst 0))) = Some 3 \<and>
   patterns (displayText (Some ''Ab'') 3 (BrailleDisplay_new (sconst 0))) =
     [0, 0, 0, 0x20, 0x01, 0x03, 0, 0, 0, 0]"
proof -
  have r: "replicate 3 (0::uint8_t) = [0, 0, 0]" "replicate 4 (0::uint8_t) = [0, 0, 0, 0]"
    by code_simp+
  show ?thesis
    using displayText_encodes[of "BrailleDisplay_new (sconst 0)" 3 "''Ab''"]
    by (simp add: well_sized_new c_str_examples encodeText_examples BRAILLE_ALPHABET_def r)
qed

text \<open>
  Claim C6, as amended. For every text and every valid \<open>startCell\<close>, \<open>displayText\<close>
  returns (no error), leaves the cells before \<open>startCell\<close> blank (no wrap-around) and
  writes into the cells from \<open>startCell\<close> to the last one the longest prefix of the
  encoding that fits; the cut is made cell by cell, so the last cell written may be a
  CAPITAL-SIGN or NUMBER-SIGN whose letter or digit no longer fits.
\<close>

theorem displayText_truncates:
  assumes "well_sized s" and "startCell < 10"
  shows "fst (displayText_cells (Some t) startCell s) =
           Some (min (10 - startCell) (length (encodeText (c_str t)))) \<and>
         patterns (displayText (Some t) startCell s) =
           take 10 (replicate startCell 0 @ encodeText (c_str t) @ replicate 10 0)"
  using displayText_cells_patterns[OF assms, of t] by (simp add: displayText_def)

theorem displayText_truncates_witness:
  "well_sized (BrailleDisplay_new (sconst 0)) \<and> (8::nat) < 10 \<and>
   fst (displayText_cells (Some ''abc'') 8 (BrailleDisplay_new (sconst 0))) = Some 2 \<and>
   patterns (displayText (Some ''abc'') 8 (BrailleDisplay_new (sconst 0))) =
     [0, 0, 0, 0, 0, 0, 0, 0, 0x01, 0x03]"
proof -
  have r: "replicate 8 (0::uint8_t) = [0, 0, 0, 0, 0, 0, 0, 0]"
    by code_simp
  show ?thesis
    using displayText_truncates[of "BrailleDisplay_new (sconst 0)" 8 "''abc''"]
    by (simp add: well_sized_new c_str_examples encodeText_abc r)
qed

text \<open>
  Claim C6 as first stated fails: \<open>displayText("A", 9)\<close> writes the CAPITAL-SIGN into the
  last cell and drops the letter it prefixes.
\<close>

theorem displayText_partial_unit_counterexample:
  "encodeText ''A'' = [BRAILLE_CAPITAL_SIGN, BRAILLE_ALPHABET ! 0] \<and>
   fst (displayText_cells (Some ''A'') 9 (BrailleDisplay_new (sconst 0))) = Some 1 \<and>
   patterns (displayText (Some ''A'') 9 (BrailleDisplay_new (sconst 0))) =
     [0, 0, 0, 0, 0, 0, 0, 0, 0, BRAILLE_CAPITAL_SIGN]"
proof -
  have e: "encodeText ''A'' = [BRAILLE_CAPITAL_SIGN, BRAILLE_ALPHABET ! 0]"
    by (simp add: encodeText_def encodeText_unit_def isDigit_def isUpper_def charToBraille_def
      less_eq_char_def Let_def)
  have r: "replicate 9 (0::uint8_t) = [0, 0, 0, 0, 0, 0, 0, 0, 0]"
    by code_simp
  have ws: "well_sized (BrailleDisplay_new (sconst 0))"
    by (rule well_sized_new)
  show ?thesis
    using displayText_cells_patterns[OF ws, of 9 "''A''"]
    by (simp add: e c_str_examples r displayText_def)
qed

section \<open>The output buffer\<close>

lemma bit_set_one:
  "b < 8 \<Longrightarrow> m < 8 \<Longrightarrow> bit ((w::uint8_t) OR push_bit b 1) m \<longleftrightarrow> bit w m \<or> m = b"
  by (auto simp: bit_simps)

lemma bit_clear_one:
  "b < 8 \<Longrightarrow> m < 8 \<Longrightarrow> bit ((w::uint8_t) AND NOT (push_bit b 1)) m \<longleftrightarrow> bit w m \<and> m \<noteq> b"
  by (auto simp: bit_simps)

lemma bit_set_one_exp:
  "b < 8 \<Longrightarrow> m < 8 \<Longrightarrow> bit ((w::uint8_t) OR 2 ^ b) m \<longleftrightarrow> bit w m \<or> m = b"
  by (auto simp: bit_simps)

lemma bit_clear_one_exp:
  "b < 8 \<Longrightarrow> m < 8 \<Longrightarrow> bit ((w::uint8_t) AND NOT (2 ^ b)) m \<longleftrightarrow> bit w m \<and> m \<noteq> b"
  by (auto simp: bit_simps)

lemma div_mod_eq_iff: "(j::nat) = k \<longleftrightarrow> j div 8 = k div 8 \<and> j mod 8 = k mod 8"
  by (metis div_mult_mod_eq)

lemma outputBit_setShiftRegisterBit:
  assumes "length (shiftRegisterData s) = 15" and "k < 120" and "j < 120"
  shows "outputBit (setShiftRegisterBit k v s) j = (if j = k then v else outputBit s j)"
proof -
  have r: "k div 8 < 15" "j div 8 < 15" "k mod 8 < 8" "j mod 8 < 8"
    using assms(2,3) by simp_all
  show ?thesis
  proof (cases "j div 8 = k div 8")
    case True
    then have "j = k \<longleftrightarrow> j mod 8 = k mod 8"
      using div_mod_eq_iff[of j k] by simp
    then show ?thesis
      using assms r True
      by (simp add: outputBit_def setShiftRegisterBit_def Let_def bit_set_one_exp bit_clear_one_exp)
  next
    case False
    then have "j \<noteq> k" by auto
    then show ?thesis
      using assms r False
      by (simp add: outputBit_def setShiftRegisterBit_def Let_def)
  qed
qed

lemma setShiftRegisterBit_other [simp]:
  "shiftedOut (setShiftRegisterBit k v s) = shiftedOut s"
  "lastUpdateTime (setShiftRegisterBit k v s) = lastUpdateTime s"
  by (simp_all add: setShiftRegisterBit_def Let_def)

lemma length_setShiftRegisterBit [simp]:
  "length (shiftRegisterData (setShiftRegisterBit k v s)) = length (shiftRegisterData s)"
  by (simp add: setShiftRegisterBit_def Let_def)

lemma outputBit_body:
  assumes "length (shiftRegisterData s) = 15" and "d < 60" and "j < 120"
  shows "outputBit (updateShiftRegisters_body d s) j =
     (if j = 2 * d then DotState.currentState (dotStates s ! d)
      else if j = 2 * d + 1 then \<not> DotState.currentState (dotStates s ! d)
      else outputBit s j)"
  using assms
  by (simp add: updateShiftRegisters_body_def getDotOutputIndex_def Let_def
      outputBit_setShiftRegisterBit)

lemma length_body [simp]:
  "length (shiftRegisterData (updateShiftRegisters_body d s)) = length (shiftRegisterData s)"
  by (simp add: updateShiftRegisters_body_def Let_def)

lemma updateShiftRegisters_loop:
  assumes "length (shiftRegisterData s) = 15" and "n \<le> 60" and "j < 120"
  shows "outputBit (fold updateShiftRegisters_body [0..<n] s) j =
     (if j < 2 * n then (if even j then DotState.currentState (dotStates s ! (j div 2))
                         else \<not> DotState.currentState (dotStates s ! (j div 2)))
      else outputBit s j)"
  using assms(2)
proof (induction n)
  case 0
  then show ?case by simp
next
  case (Suc n)
  let ?s = "fold updateShiftRegisters_body [0..<n] s"
  have len: "length (shiftRegisterData ?s) = 15"
    using assms(1) by (simp add: fold_frame[where g = "\<lambda>s. length (shiftRegisterData s)"])
  have ds: "dotStates ?s = dotStates s"
    by (simp add: fold_frame[where g = dotStates])
  from Suc.prems have n: "n < 60" by simp
  have IH: "outputBit ?s j =
     (if j < 2 * n then (if even j then DotState.currentState (dotStates s ! (j div 2))
                         else \<not> DotState.currentState (dotStates s ! (j div 2)))
      else outputBit s j)"
    using Suc by simp
  show ?case
    using outputBit_body[OF len n assms(3)] IH
    by (auto simp: ds elim!: oddE)
qed

lemma clear_loop:
  "n \<le> length (shiftRegisterData s) \<Longrightarrow>
   shiftRegisterData (fold (\<lambda>i s. s\<lparr>shiftRegisterData := (shiftRegisterData s)[i := 0]\<rparr>) [0..<n] s) =
     replicate n 0 @ drop n (shiftRegisterData s)"
proof (induction n)
  case 0
  then show ?case by simp
next
  case (Suc n)
  then have n: "n < length (shiftRegisterData s)" by simp
  have "(replicate n 0 @ drop n (shiftRegisterData s))[n := 0] =
      replicate (Suc n) 0 @ drop (Suc n) (shiftRegisterData s)"
    using n by (simp add: list_update_append Cons_nth_drop_Suc[symmetric] replicate_append_same)
  with Suc.IH n show ?case
    by simp
qed

lemma shiftRegisterData_clearShiftRegisters:
  "length (shiftRegisterData s) = 15 \<Longrightarrow>
   shiftRegisterData (clearShiftRegisters s) = replicate 15 0"
  using clear_loop[of 15 s] by (simp add: clearShiftRegisters_def)

lemma blank_clearShiftRegisters:
  "length (shiftRegisterData s) = 15 \<Longrightarrow> blank (clearShiftRegisters s)"
  by (simp add: blank_def outputBit_def shiftRegisterData_clearShiftRegisters)

lemma serialized_updateShiftRegisters:
  assumes "length (shiftRegisterData s) = 15"
  shows "serialized (updateShiftRegisters s)"
proof -
  have len: "length (shiftRegisterData (clearShiftRegisters s)) = 15"
    using assms by (simp add: shiftRegisterData_clearShiftRegisters)
  have "outputBit (updateShiftRegisters s) (d * 2) = DotState.currentState (dotStates s ! d) \<and>
        outputBit (updateShiftRegisters s) (Suc (d * 2)) = (\<not> DotState.currentState (dotStates s ! d))"
    if "d < 60" for d
    using that updateShiftRegisters_loop[OF len, of 60 "d * 2"]
      updateShiftRegisters_loop[OF len, of 60 "Suc (d * 2)"]
    by (simp add: updateShiftRegisters_def)
  then show ?thesis
    by (simp add: serialized_def getDotOutputIndex_def)
qed

lemma buffer_inv_cong:
  assumes "sizes t = sizes s" and "outs t = outs s"
  shows "buffer_inv t = buffer_inv s"
proof -
  from assms(2) have b: "shiftRegisterData t = shiftRegisterData s"
    and m: "map DotState.currentState (dotStates t) = map DotState.currentState (dotStates s)"
    by (simp_all add: outs_def)
  have ws: "well_sized t = well_sized s"
    using assms(1) by (simp add: well_sized_sizes)
  have bl: "blank t = blank s"
    by (simp add: blank_def outputBit_def b)
  have "serialized t = serialized s" if "well_sized s"
  proof -
    from that ws have l: "length (dotStates s) = 60" "length (dotStates t) = 60"
      by (simp_all add: well_sized_def)
    have "DotState.currentState (dotStates t ! d) = DotState.currentState (dotStates s ! d)"
      if "d < 60" for d
      using that l nth_map[of d "dotStates t" DotState.currentState]
        nth_map[of d "dotStates s" DotState.currentState] m
      by simp
    then show ?thesis
      by (simp add: serialized_def outputBit_def b)
  qed
  with ws bl show ?thesis
    by (auto simp: buffer_inv_def)
qed

lemma buffer_inv_updateShiftRegisters:
  assumes "well_sized s"
  shows "buffer_inv (updateShiftRegisters s)"
proof -
  have "well_sized (updateShiftRegisters s)"
    using assms by (simp add: well_sized_sizes)
  moreover have "serialized (updateShiftRegisters s)"
    using assms by (simp add: serialized_updateShiftRegisters well_sized_def)
  ultimately show ?thesis
    by (simp add: buffer_inv_def)
qed

lemma buffer_inv_clearShiftRegisters:
  assumes "well_sized s"
  shows "buffer_inv (clearShiftRegisters s)"
proof -
  have "well_sized (clearShiftRegisters s)"
    using assms by (simp add: well_sized_sizes)
  moreover have "blank (clearShiftRegisters s)"
    using assms by (simp add: blank_clearShiftRegisters well_sized_def)
  ultimately show ?thesis
    by (simp add: buffer_inv_def)
qed

lemma buffer_inv_well_sized: "buffer_inv s \<Longrightarrow> well_sized s"
  by (simp add: buffer_inv_def)

lemma outs_simps [simp]:
  "outs (s\<lparr>clock := c\<rparr>) = outs s"
  "outs (s\<lparr>lastUpdateTime := t\<rparr>) = outs s"
  "outs (s\<lparr>shiftedOut := b\<rparr>) = outs s"
  "outs (s\<lparr>displayEnabled := e\<rparr>) = outs s"
  "outs (setCell i f s) = outs s"
  by (simp_all add: outs_def)

lemma outs_setDot:
  "(\<And>x. DotState.currentState (g x) = DotState.currentState x) \<Longrightarrow> outs (setDot i g s) = outs s"
  by (cases "i < length (dotStates s)") (simp_all add: outs_def map_update list_update_beyond list_update_same_conv)

lemma outs_refresh [simp]: "outs (refresh s) = outs s"
  by (simp add: refresh_def millis_def Let_def)

lemma outs_setDotState_deferred [simp]: "outs (setDotState d b False s) = outs s"
  by (simp add: setDotState_def millis_def Let_def outs_setDot)

lemma buffer_inv_refresh [simp]: "buffer_inv (refresh s) = buffer_inv s"
  by (rule buffer_inv_cong) simp_all

lemma buffer_inv_setDotState:
  assumes "buffer_inv s"
  shows "buffer_inv (setDotState d b imm s)"
proof (cases imm)
  case False
  have "buffer_inv (setDotState d b False s) = buffer_inv s"
    by (rule buffer_inv_cong) simp_all
  with assms False show ?thesis
    by simp
next
  case True
  show ?thesis
  proof (cases "d \<ge> 60")
    case True
    with assms show ?thesis
      by (simp add: setDotState_def)
  next
    case False
    let ?s = "setDot d (\<lambda>x. x\<lparr>actionPending := False\<rparr>)
      (setDot d (\<lambda>x. x\<lparr>actionTime := shd (clock s)\<rparr>)
        (setDot d (\<lambda>x. x\<lparr>DotState.currentState := b\<rparr>)
          (setDot d (\<lambda>x. x\<lparr>targetState := b\<rparr>) s)\<lparr>clock := stl (clock s)\<rparr>))"
    have "well_sized ?s"
      using buffer_inv_well_sized[OF assms] by (simp add: well_sized_sizes)
    then have "buffer_inv (refresh (updateShiftRegisters ?s))"
      by (simp add: buffer_inv_updateShiftRegisters)
    moreover have "setDotState d b True s = refresh (updateShiftRegisters ?s)"
      using False by (simp add: setDotState_def millis_def Let_def)
    ultimately show ?thesis
      using True by simp
  qed
qed

lemma fold_preserves: "(\<And>x s. P s \<Longrightarrow> P (f x s)) \<Longrightarrow> P s \<Longrightarrow> P (fold f xs s)"
  by (induction xs arbitrary: s) simp_all

lemma processPendingActions_body_flag:
  "snd a \<Longrightarrow> snd (processPendingActions_body t i a)"
  by (simp add: processPendingActions_body_def case_prod_beta)

lemma processPendingActions_loop_flag:
  "snd a \<Longrightarrow> snd (fold (processPendingActions_body t) xs a)"
  by (induction xs arbitrary: a) (simp_all add: processPendingActions_body_flag)

lemma processPendingActions_body_idle:
  "\<not> snd (processPendingActions_body t i a) \<Longrightarrow> processPendingActions_body t i a = a"
  by (cases a) (simp add: processPendingActions_body_def split: if_splits)

lemma processPendingActions_loop_idle:
  "\<not> snd (fold (processPendingActions_body t) xs a) \<Longrightarrow>
   fold (processPendingActions_body t) xs a = a"
proof (induction xs arbitrary: a)
  case Nil
  then show ?case by simp
next
  case (Cons x xs)
  then have n: "\<not> snd (fold (processPendingActions_body t) xs (processPendingActions_body t x a))"
    by simp
  then have "\<not> snd (processPendingActions_body t x a)"
    using processPendingActions_loop_flag by blast
  then have "processPendingActions_body t x a = a"
    by (rule processPendingActions_body_idle)
  with Cons.IH[OF n] show ?case
    by simp
qed

lemma buffer_inv_processPendingActions:
  assumes "buffer_inv s"
  shows "buffer_inv (processPendingActions s)"
proof -
  let ?s0 = "s\<lparr>clock := stl (clock s)\<rparr>"
  let ?r = "fold (processPendingActions_body (shd (clock s))) [0..<TOTAL_DOTS] (?s0, False)"
  have eq: "processPendingActions s =
      (if snd ?r then (if displayEnabled (updateShiftRegisters (fst ?r))
                       then refresh (updateShiftRegisters (fst ?r))
                       else updateShiftRegisters (fst ?r))
       else fst ?r)"
    by (simp add: processPendingActions_def millis_def Let_def case_prod_beta)
  show ?thesis
  proof (cases "snd ?r")
    case True
    have "well_sized (fst ?r)"
      using buffer_inv_well_sized[OF assms] by (simp add: well_sized_sizes)
    then have "buffer_inv (updateShiftRegisters (fst ?r))"
      by (rule buffer_inv_updateShiftRegisters)
    with True show ?thesis
      unfolding eq by simp
  next
    case False
    then have "?r = (?s0, False)"
      by (rule processPendingActions_loop_idle)
    moreover have "buffer_inv ?s0 = buffer_inv s"
      by (rule buffer_inv_cong) simp_all
    ultimately show ?thesis
      unfolding eq using assms False by simp
  qed
qed

lemma buffer_inv_setCell [simp]: "buffer_inv (setCell i f s) = buffer_inv s"
  by (rule buffer_inv_cong) simp_all

lemma buffer_inv_clock [simp]: "buffer_inv (s\<lparr>clock := c\<rparr>) = buffer_inv s"
  by (rule buffer_inv_cong) simp_all

lemma buffer_inv_displayEnabled [simp]: "buffer_inv (s\<lparr>displayEnabled := e\<rparr>) = buffer_inv s"
  by (rule buffer_inv_cong) simp_all

lemma buffer_inv_enable: "buffer_inv s \<Longrightarrow> buffer_inv (enable s)"
  by (simp add: enable_def)

lemma buffer_inv_disable: "buffer_inv s \<Longrightarrow> buffer_inv (disable s)"
  by (simp add: disable_def)

lemma buffer_inv_clearDisplay:
  assumes "well_sized s"
  shows "buffer_inv (clearDisplay s)"
proof -
  let ?s1 = "fold (\<lambda>i s.
                 let s = setCell i (\<lambda>c. c\<lparr>pattern := 0\<rparr>) s;
                     s = setCell i (\<lambda>c. c\<lparr>BrailleCell.currentState := 0\<rparr>) s;
                     s = setCell i (\<lambda>c. c\<lparr>isActive := False\<rparr>) s;
                     (now, s) = millis s;
                     s = setCell i (\<lambda>c. c\<lparr>updateTime := now\<rparr>) s
                 in setCell i (\<lambda>c. c\<lparr>needsUpdate := True\<rparr>) s)
               [0..<NUM_BRAILLE_CELLS] s"
  let ?s2 = "fold (\<lambda>i s. setDotState i False False s) [0..<TOTAL_DOTS] ?s1"
  have "sizes ?s2 = sizes s"
    by (simp add: fold_frame[where g = sizes] millis_def Let_def)
  with assms have "well_sized ?s2"
    by (simp add: well_sized_sizes)
  then have "buffer_inv (clearShiftRegisters ?s2)"
    by (rule buffer_inv_clearShiftRegisters)
  then show ?thesis
    unfolding clearDisplay_def Let_def by simp
qed

lemma buffer_inv_setCellPattern:
  assumes "buffer_inv s"
  shows "buffer_inv (setCellPattern i p s)"
proof (cases "i < 10")
  case False
  with assms show ?thesis
    by (simp add: setCellPattern_def isValidBrailleCell_def)
next
  case True
  have d: "buffer_inv (dotLoop i p 6 s')" if "buffer_inv s'" for s'
    unfolding dotLoop_def using that
    by (rule fold_preserves[rotated]) (rule buffer_inv_setDotState)
  show ?thesis
    unfolding setCellPattern_unfold[OF True] Let_def millis_def
    using assms by (simp add: d buffer_inv_processPendingActions)
qed

lemma buffer_inv_putCell:
  "buffer_inv (snd a) \<Longrightarrow> buffer_inv (snd (putCell p a))"
  by (simp add: putCell_def case_prod_beta buffer_inv_setCellPattern)

lemma buffer_inv_displayText_body:
  assumes "buffer_inv (snd (snd (snd st)))"
  shows "buffer_inv (snd (snd (snd (displayText_body t st))))"
proof -
  obtain ci ti nm s where st: "st = (ci, ti, nm, s)"
    by (cases st) auto
  from assms have s: "buffer_inv s"
    by (simp add: st)
  have one: "buffer_inv (snd (putCell p (ci', s')))" if "buffer_inv s'" for p ci' s'
    using that buffer_inv_putCell[of "(ci', s')" p] by simp
  have two: "buffer_inv (snd (putCell q (putCell p (ci', s'))))" if "buffer_inv s'" for p q ci' s'
    using that buffer_inv_putCell[of "putCell p (ci', s')" q] buffer_inv_putCell[of "(ci', s')" p]
    by simp
  show ?thesis
    unfolding st displayText_body_def Let_def case_prod_beta
    using s by (simp add: one two buffer_inv_setCellPattern)
qed

lemma buffer_inv_displayText_loop:
  "buffer_inv (snd (snd (snd st))) \<Longrightarrow> buffer_inv (snd (snd (snd (displayText_loop t st))))"
proof (induction t st rule: displayText_loop.induct)
  case (1 t st)
  show ?case
  proof (cases "text_at t (fst (snd st)) \<noteq> CHR 0x00 \<and> fst st < NUM_BRAILLE_CELLS")
    case True
    have "buffer_inv (snd (snd (snd (displayText_loop t (displayText_body t st)))))"
      using True "1.prems" by (intro "1.IH" buffer_inv_displayText_body) simp_all
    with True show ?thesis
      by (subst displayText_loop.simps) simp
  next
    case False
    with "1.prems" show ?thesis
      by (subst displayText_loop.simps) auto
  qed
qed

lemma buffer_inv_displayText:
  assumes "buffer_inv s"
  shows "buffer_inv (displayText t i s)"
proof (cases "t = None \<or> i \<ge> 10")
  case True
  with assms show ?thesis
    by (auto simp: displayText_def displayText_cells_def split: option.splits)
next
  case False
  then obtain t' where t: "t = Some t'" and i: "i < 10"
    by (cases t) auto
  have "buffer_inv (clearDisplay s)"
    using assms by (intro buffer_inv_clearDisplay buffer_inv_well_sized)
  then have "buffer_inv (snd (snd (snd (displayText_loop t' (i, 0, False, clearDisplay s)))))"
    by (intro buffer_inv_displayText_loop) simp
  then show ?thesis
    using i by (simp add: displayText_def displayText_cells_def t Let_def case_prod_beta)
qed

lemma buffer_inv_displayChar: "buffer_inv s \<Longrightarrow> buffer_inv (displayChar c i s)"
  by (simp add: displayChar_def buffer_inv_setCellPattern)

lemma buffer_inv_displayMirroredPattern:
  "buffer_inv s \<Longrightarrow> buffer_inv (displayMirroredPattern i p s)"
  by (simp add: displayMirroredPattern_def buffer_inv_setCellPattern)

lemma buffer_inv_displayMirroredText:
  assumes "buffer_inv s"
  shows "buffer_inv (displayMirroredText t i s)"
proof -
  let ?s = "fold (\<lambda>i s.
                 if isActive (cells s ! i) then
                   setCell i (\<lambda>c. c\<lparr>pattern := mirrorBraillePattern (pattern c)\<rparr>) s
                 else s)
               [i..<NUM_BRAILLE_CELLS] (displayText t i s)"
  have "sizes ?s = sizes s"
    by (simp add: fold_frame[where g = sizes])
  with buffer_inv_well_sized[OF assms] have "well_sized ?s"
    by (simp add: well_sized_sizes)
  then have "buffer_inv (updateShiftRegisters ?s)"
    by (rule buffer_inv_updateShiftRegisters)
  then show ?thesis
    unfolding displayMirroredText_def Let_def by simp
qed

lemma buffer_inv_dots:
  assumes "buffer_inv s"
  shows "buffer_inv (raiseDot i d s)" and "buffer_inv (lowerDot i d s)"
    and "buffer_inv (raiseDotImmediate i d s)" and "buffer_inv (lowerDotImmediate i d s)"
  using assms
  by (simp_all add: raiseDot_def lowerDot_def raiseDotImmediate_def lowerDotImmediate_def
      buffer_inv_setDotState)

lemma buffer_inv_tests:
  assumes "buffer_inv s"
  shows "buffer_inv (testAllDots s)" and "buffer_inv (testSequential s)"
    and "buffer_inv (testPattern p s)" and "buffer_inv (testBidirectional s)"
proof -
  have start: "buffer_inv (enable (clearDisplay s))"
    using assms by (intro buffer_inv_enable buffer_inv_clearDisplay buffer_inv_well_sized)
  show "buffer_inv (testAllDots s)"
    unfolding testAllDots_def
    by (intro fold_preserves[where P = buffer_inv] buffer_inv_setCellPattern start)
  show "buffer_inv (testSequential s)"
    unfolding testSequential_def Let_def
    by (intro fold_preserves[where P = buffer_inv] buffer_inv_clearDisplay buffer_inv_well_sized
        buffer_inv_setCellPattern start)
  show "buffer_inv (testPattern p s)"
    unfolding testPattern_def
    by (intro fold_preserves[where P = buffer_inv] buffer_inv_clearDisplay buffer_inv_well_sized
        buffer_inv_setCellPattern start)
  show "buffer_inv (testBidirectional s)"
    unfolding testBidirectional_def
    by (intro fold_preserves[where P = buffer_inv] buffer_inv_dots start)
qed

lemma buffer_inv_exec: "buffer_inv s \<Longrightarrow> buffer_inv (exec c s)"
  by (cases c)
     (simp_all add: begin_display_def update_def buffer_inv_clearDisplay buffer_inv_well_sized
       buffer_inv_enable buffer_inv_disable buffer_inv_setCellPattern buffer_inv_displayText
       buffer_inv_displayChar buffer_inv_dots buffer_inv_displayMirroredPattern
       buffer_inv_displayMirroredText buffer_inv_processPendingActions buffer_inv_tests)

lemma buffer_inv_new: "buffer_inv (BrailleDisplay_new clk)"
proof -
  have "blank (BrailleDisplay_new clk)"
    unfolding BrailleDisplay_new_def by (rule blank_clearShiftRegisters) simp
  then show ?thesis
    by (simp add: buffer_inv_def well_sized_new)
qed

lemma reachable_buffer_inv: "reachable s \<Longrightarrow> buffer_inv s"
  by (induction rule: reachable.induct) (simp_all add: buffer_inv_new buffer_inv_exec)

text \<open>
  Claim C1, as amended. In every reachable state of the display (after construction and
  any sequence of public operations) no dot has both of its output bits set, and the
  buffer has one of two shapes: it is all zero (as construction and \<open>clearDisplay\<close>
  leave it; then neither bit of any dot is set), or for every dot \<open>d < 60\<close> exactly one
  of the bits \<open>2 * d\<close> (raise) and \<open>2 * d + 1\<close> (retract) is set, the raise bit equal to
  the dot's \<open>currentState\<close> and the retract bit to its negation. The second shape holds
  whenever \<open>updateShiftRegisters\<close> has just run.
\<close>

theorem reachable_output_bits:
  assumes "reachable s"
  shows "(\<forall>d < TOTAL_DOTS.
            \<not> (outputBit s (getDotOutputIndex d DOT_DIRECTION_UP) \<and>
               outputBit s (getDotOutputIndex d DOT_DIRECTION_DOWN))) \<and>
         (blank s \<or> serialized s) \<and>
         serialized (updateShiftRegisters s)"
proof -
  from assms have inv: "buffer_inv s"
    by (rule reachable_buffer_inv)
  then have shape: "blank s \<or> serialized s" and ws: "well_sized s"
    by (simp_all add: buffer_inv_def)
  have "\<not> (outputBit s (getDotOutputIndex d DOT_DIRECTION_UP) \<and>
            outputBit s (getDotOutputIndex d DOT_DIRECTION_DOWN))" if "d < TOTAL_DOTS" for d
    using shape
  proof
    assume "blank s"
    with that show ?thesis
      by (simp add: blank_def getDotOutputIndex_def)
  next
    assume "serialized s"
    with that show ?thesis
      by (simp add: serialized_def)
  qed
  moreover have "serialized (updateShiftRegisters s)"
    using ws by (simp add: serialized_updateShiftRegisters well_sized_def)
  ultimately show ?thesis
    using shape by blast
qed

theorem reachable_output_bits_witness:
  "reachable (exec (RaiseDotImmediate 0 0) (BrailleDisplay_new (sconst 0))) \<and>
   (blank (exec (RaiseDotImmediate 0 0) (BrailleDisplay_new (sconst 0))) \<or>
    serialized (exec (RaiseDotImmediate 0 0) (BrailleDisplay_new (sconst 0))))"
proof -
  have r: "reachable (exec (RaiseDotImmediate 0 0) (BrailleDisplay_new (sconst 0)))"
    by (intro reachable.step reachable.init)
  from reachable_output_bits[OF r] r show ?thesis
    by blast
qed

text \<open>
  Claim C1 as first stated fails: the freshly constructed display is reachable, and
  neither output bit of dot 0 is set in it.
\<close>

theorem fresh_display_no_output_bit_counterexample:
  "reachable (BrailleDisplay_new (sconst 0)) \<and>
   \<not> outputBit (BrailleDisplay_new (sconst 0)) (getDotOutputIndex 0 DOT_DIRECTION_UP) \<and>
   \<not> outputBit (BrailleDisplay_new (sconst 0)) (getDotOutputIndex 0 DOT_DIRECTION_DOWN)"
proof -
  have "blank (BrailleDisplay_new (sconst 0))"
    unfolding BrailleDisplay_new_def by (rule blank_clearShiftRegisters) simp
  then show ?thesis
    by (simp add: blank_def getDotOutputIndex_def reachable.init)
qed

end
